theory Spec2Isabelle
  imports Main "HOL-Library.Word"
begin

unbundle bit_operations_syntax

section \<open>Windows types and constants used by the program\<close>

text \<open>
  \<open>WORD\<close> and \<open>USHORT\<close> are unsigned 16-bit, \<open>SHORT\<close> is the same 16 bits read in two's
  complement, \<open>DWORD\<close> is unsigned 32-bit, \<open>std::uint64_t\<close> is unsigned 64-bit. A \<open>POINT\<close>
  is a pair of 32-bit coordinates. The virtual-key codes and raw-input flag bits are the
  values of \<open>windows.h\<close>.
\<close>

type_synonym WORD = "16 word"
type_synonym SHORT = "16 word"
type_synonym DWORD = "32 word"
type_synonym uint64_t = "64 word"
type_synonym POINT = "32 word \<times> 32 word"

abbreviation VK_SHIFT :: WORD where "VK_SHIFT \<equiv> 0x10"
abbreviation VK_CONTROL :: WORD where "VK_CONTROL \<equiv> 0x11"
abbreviation VK_MENU :: WORD where "VK_MENU \<equiv> 0x12"
abbreviation VK_CAPITAL :: WORD where "VK_CAPITAL \<equiv> 0x14"
abbreviation VK_ESCAPE :: WORD where "VK_ESCAPE \<equiv> 0x1B"
abbreviation VK_SPACE :: WORD where "VK_SPACE \<equiv> 0x20"
abbreviation VK_LSHIFT :: WORD where "VK_LSHIFT \<equiv> 0xA0"
abbreviation VK_RSHIFT :: WORD where "VK_RSHIFT \<equiv> 0xA1"
abbreviation VK_OEM_1 :: WORD where "VK_OEM_1 \<equiv> 0xBA"
abbreviation VK_OEM_PLUS :: WORD where "VK_OEM_PLUS \<equiv> 0xBB"
abbreviation VK_OEM_COMMA :: WORD where "VK_OEM_COMMA \<equiv> 0xBC"
abbreviation VK_OEM_MINUS :: WORD where "VK_OEM_MINUS \<equiv> 0xBD"
abbreviation VK_OEM_PERIOD :: WORD where "VK_OEM_PERIOD \<equiv> 0xBE"
abbreviation VK_OEM_2 :: WORD where "VK_OEM_2 \<equiv> 0xBF"
abbreviation VK_OEM_3 :: WORD where "VK_OEM_3 \<equiv> 0xC0"
abbreviation VK_OEM_4 :: WORD where "VK_OEM_4 \<equiv> 0xDB"
abbreviation VK_OEM_5 :: WORD where "VK_OEM_5 \<equiv> 0xDC"
abbreviation VK_OEM_6 :: WORD where "VK_OEM_6 \<equiv> 0xDD"
abbreviation VK_OEM_7 :: WORD where "VK_OEM_7 \<equiv> 0xDE"

abbreviation RI_KEY_BREAK :: WORD where "RI_KEY_BREAK \<equiv> 1"
abbreviation RI_KEY_E0 :: WORD where "RI_KEY_E0 \<equiv> 2"

definition LOBYTE :: "SHORT \<Rightarrow> WORD" where
  "LOBYTE v = v AND 0xFF"

definition HIBYTE :: "SHORT \<Rightarrow> WORD" where
  "HIBYTE v = drop_bit 8 v AND 0xFF"

section \<open>The operating system as seen by the program\<close>

text \<open>
  Every call that leaves the process is recorded in \<open>os_calls\<close>, in order: a
  \<open>SendInput\<close> of one keyboard \<open>INPUT\<close> (virtual key, key-up flag, and whether the
  system accepted it), a \<open>sleep_for\<close> of so many milliseconds, and the \<open>system\<close> call that
  runs the suggestion script (with its exit code).
\<close>

datatype os_call =
    SendInput WORD bool bool
  | Sleep DWORD
  | System string int

text \<open>What reading \<open>python_output.txt\<close> gives: the file does not open, \<open>getline\<close>
  fails, or the first line.\<close>

datatype python_output = CannotOpen | CannotRead | FirstLine string

text \<open>
  The answers of the system are parameters of the model. \<open>SendInput_ok\<close> says whether
  the system accepts an \<open>INPUT\<close>, given everything the process has called so far;
  \<open>VkKeyScanA\<close> is the keyboard layout's answer for a character (low byte the virtual
  key, high byte the shift state, \<open>-1\<close> when the layout has no key for it), taken as
  fixed while one text is sent.
\<close>

record os_env =
  SendInput_ok :: "os_call list \<Rightarrow> WORD \<Rightarrow> bool \<Rightarrow> bool"
  VkKeyScanA :: "char \<Rightarrow> SHORT"
  system_exit :: "os_call list \<Rightarrow> int"
  read_python_output :: "os_call list \<Rightarrow> python_output"
  GetKeyState_caps_toggled :: bool
  CreateOverlayWindow_ok :: bool
  log_open_ok :: bool

section \<open>Program state\<close>

record SpecialKeyState =
  isPressed :: bool
  hadInterveningKeys :: bool
  pressTimestamp :: uint64_t
  pressPosition :: POINT

text \<open>The constructor \<open>SpecialKeyState()\<close>.\<close>

definition SpecialKeyState_new :: SpecialKeyState where
  "SpecialKeyState_new =
     \<lparr>isPressed = False, hadInterveningKeys = False, pressTimestamp = 0, pressPosition = (0, 0)\<rparr>"

text \<open>
  The lines written to \<open>std::cout\<close> and \<open>std::cerr\<close>, one constructor per message of the
  source, with the values the message prints.
\<close>

datatype console_msg =
    InjectorInitialized DWORD
  | ErrInjectorNotInitialized
  | ErrSendInputFailed
  | SendingText string
  | WarnCannotConvert char
  | KeyDelaySet DWORD
  | SpecialHandlerInitialized
  | RightCtrlPressedAlone
  | LeftCtrlTrigger
  | PressedAlone string
  | PartOfCombination string
  | Combo string WORD
  | GeneratingCompletion
  | ReadyCompletion string
  | NoCompletionAvailable
  | ErrCouldNotReadPythonOutput
  | ErrCouldNotOpenPythonOutput
  | ErrPythonFailed int
  | GenerationCompleted
  | RightCtrlBanner
  | AcceptingSuggestion string
  | InjectedText nat
  | ErrFailedToInject
  | NoPendingSuggestion
  | RightCtrlCompleted
  | ShiftBanner
  | AltBanner
  | SpecialKeyHook string WORD uint64_t POINT POINT
  | OverlayInitialized
  | ErrOverlayCreate
  | OverlayShowing string
  | OverlayHidden
  | LoggerInitialized
  | LogCleared
  | WarnLogNotCleared
  | ErrLoggerNotInitialized
  | ErrLogNotWritable
  | EscShutdown uint64_t
  | KeyLine uint64_t WORD WORD bool "string option" POINT

text \<open>
  A keyboard entry of the event log keeps the fields the JSON line is built from: the
  timestamp, the action (key-up or key-down), the virtual key whose name is printed, and
  the character (empty for \<open>null\<close>).
\<close>

datatype log_entry = KeyboardEntry uint64_t bool WORD string

record KeyboardEventData =
  vKey :: WORD
  scanCode :: WORD
  flags :: WORD
  isKeyUp :: bool

text \<open>Only keyboard events are modelled; \<open>InputEvent\<close> is then the timestamp, the cursor
  position and the keyboard data.\<close>

type_synonym InputEvent = "uint64_t \<times> POINT \<times> KeyboardEventData"

text \<open>
  The static members of the four classes and the globals of \<open>main.cpp\<close>, with the
  effects on the outside: the overlay window being shown, the log file, the messages
  posted to the window, the console and the system calls.
\<close>

record world =
  s_keyDelayMs :: DWORD
  InputInjector_initialized :: bool
  s_specialKeys :: "WORD list"
  s_specialKeyStates :: "SpecialKeyState list"
  s_pendingSuggestion :: string
  s_hasPendingSuggestion :: bool
  s_overlayWindow :: bool
  SuggestionOverlay_initialized :: bool
  s_currentSuggestion :: string
  overlay_visible :: bool
  EventLogger_initialized :: bool
  s_shiftPressed :: bool
  s_capsLockOn :: bool
  log_file :: "log_entry list"
  g_running :: bool
  g_eventHistory :: "InputEvent list"
  quit_posted :: bool
  os_calls :: "os_call list"
  console :: "console_msg list"

text \<open>The values of the static member definitions, before \<open>main\<close> runs.\<close>

definition static_init :: world where
  "static_init =
     \<lparr>s_keyDelayMs = 10, InputInjector_initialized = False,
      s_specialKeys = [], s_specialKeyStates = [],
      s_pendingSuggestion = [], s_hasPendingSuggestion = False,
      s_overlayWindow = False, SuggestionOverlay_initialized = False,
      s_currentSuggestion = [], overlay_visible = False,
      EventLogger_initialized = False, s_shiftPressed = False, s_capsLockOn = False,
      log_file = [], g_running = True, g_eventHistory = [], quit_posted = False,
      os_calls = [], console = []\<rparr>"

definition say :: "console_msg \<Rightarrow> world \<Rightarrow> world" where
  "say m w = w\<lparr>console := console w @ [m]\<rparr>"

definition sleep_for :: "DWORD \<Rightarrow> world \<Rightarrow> world" where
  "sleep_for ms w = w\<lparr>os_calls := os_calls w @ [Sleep ms]\<rparr>"

section \<open>InputInjector (input\_injection.cpp)\<close>

definition InputInjector_Initialize :: "world \<Rightarrow> world" where
  "InputInjector_Initialize w =
     (let w1 = w\<lparr>InputInjector_initialized := True\<rparr>
      in say (InjectorInitialized (s_keyDelayMs w1)) w1)"

definition SendInputHelper :: "os_env \<Rightarrow> WORD \<Rightarrow> bool \<Rightarrow> world \<Rightarrow> bool \<times> world" where
  "SendInputHelper env vk up w =
     (let ok = SendInput_ok env (os_calls w) vk up;
          w1 = w\<lparr>os_calls := os_calls w @ [SendInput vk up ok]\<rparr>
      in if \<not> ok then (False, say ErrSendInputFailed w1) else (True, w1))"

definition SendVirtualKey :: "os_env \<Rightarrow> WORD \<Rightarrow> bool \<Rightarrow> world \<Rightarrow> bool \<times> world" where
  "SendVirtualKey env vkCode up w =
     (if \<not> InputInjector_initialized w then (False, say ErrInjectorNotInitialized w)
      else SendInputHelper env vkCode up w)"

text \<open>\<open>success &= SendVirtualKey(vkCode, true)\<close> evaluates its right-hand side whatever
  \<open>success\<close> is: the key-up is sent also after a failed key-down.\<close>

definition SendKeyPress :: "os_env \<Rightarrow> WORD \<Rightarrow> world \<Rightarrow> bool \<times> world" where
  "SendKeyPress env vkCode w =
     (case SendVirtualKey env vkCode False w of
        (success, w1) \<Rightarrow>
          (let w2 = (if success \<and> 0 < s_keyDelayMs w1 then sleep_for (s_keyDelayMs w1) w1 else w1)
           in case SendVirtualKey env vkCode True w2 of
                (r, w3) \<Rightarrow> (success \<and> r, w3)))"

text \<open>
  The comparisons of \<open>CharToVirtualKey\<close> are on the character's code; the three ranges lie
  below 128, where a signed and an unsigned \<open>char\<close> agree.
\<close>

definition CharToVirtualKey :: "os_env \<Rightarrow> char \<Rightarrow> WORD" where
  "CharToVirtualKey env c =
     (let n = (of_char c :: nat) in
      if 65 \<le> n \<and> n \<le> 90 then of_nat (65 + (n - 65))
      else if 97 \<le> n \<and> n \<le> 122 then of_nat (65 + (n - 97))
      else if 48 \<le> n \<and> n \<le> 57 then of_nat (48 + (n - 48))
      else if c = CHR '' '' then VK_SPACE
      else (let vkScan = VkKeyScanA env c
            in if vkScan \<noteq> - 1 then LOBYTE vkScan else 0))"

text \<open>
  One round of the loop of \<open>SendTextString\<close>, for the character \<open>c\<close>: the result of
  \<open>SendKeyPress\<close> for a character with a virtual key (\<open>None\<close> for a character that is
  skipped with a warning), and the state after it. The results of the two
  \<open>SendVirtualKey(VK_SHIFT, ...)\<close> calls are dropped, as in the source.
\<close>

definition SendTextString_char :: "os_env \<Rightarrow> char \<Rightarrow> world \<Rightarrow> bool option \<times> world" where
  "SendTextString_char env c w =
     (let vkCode = CharToVirtualKey env c in
      if vkCode \<noteq> 0 then
        (let vkScan = VkKeyScanA env c;
             modifiers = HIBYTE vkScan;
             w1 = (if modifiers AND 1 \<noteq> 0 then snd (SendVirtualKey env VK_SHIFT False w) else w)
         in case SendKeyPress env vkCode w1 of
              (r, w2) \<Rightarrow>
                (let w3 = (if modifiers AND 1 \<noteq> 0 then snd (SendVirtualKey env VK_SHIFT True w2) else w2);
                     w4 = (if 0 < s_keyDelayMs w3 then sleep_for (s_keyDelayMs w3) w3 else w3)
                 in (Some r, w4)))
      else (None, say (WarnCannotConvert c) w))"

text \<open>The loop \<open>for (char c : text)\<close> with its accumulator \<open>success\<close>
  (\<open>success &= SendKeyPress(vkCode)\<close>); there is no \<open>break\<close>.\<close>

fun SendTextString_loop :: "os_env \<Rightarrow> string \<Rightarrow> bool \<times> world \<Rightarrow> bool \<times> world" where
  "SendTextString_loop env [] acc = acc"
| "SendTextString_loop env (c # cs) (success, w) =
     (case SendTextString_char env c w of
        (None, w') \<Rightarrow> SendTextString_loop env cs (success, w')
      | (Some r, w') \<Rightarrow> SendTextString_loop env cs (success \<and> r, w'))"

definition SendTextString :: "os_env \<Rightarrow> string \<Rightarrow> world \<Rightarrow> bool \<times> world" where
  "SendTextString env text w =
     (if \<not> InputInjector_initialized w then (False, say ErrInjectorNotInitialized w)
      else SendTextString_loop env text (True, say (SendingText text) w))"

definition SetKeyDelay :: "DWORD \<Rightarrow> world \<Rightarrow> world" where
  "SetKeyDelay delayMs w = say (KeyDelaySet delayMs) (w\<lparr>s_keyDelayMs := delayMs\<rparr>)"

section \<open>SuggestionOverlay (suggestion\_overlay.cpp)\<close>

text \<open>
  \<open>s_overlayWindow\<close> says whether the window handle is non-null, \<open>overlay_visible\<close>
  whether the window is shown (\<open>ShowWindow\<close> with \<open>SW_SHOWNOACTIVATE\<close> or \<open>SW_HIDE\<close>).
  Whether \<open>CreateOverlayWindow\<close> succeeds is the system's answer; its own two error
  lines are not recorded.
\<close>

definition SuggestionOverlay_Initialize :: "os_env \<Rightarrow> world \<Rightarrow> world" where
  "SuggestionOverlay_Initialize env w =
     (if SuggestionOverlay_initialized w then w
      else if CreateOverlayWindow_ok env
        then say OverlayInitialized (w\<lparr>s_overlayWindow := True, SuggestionOverlay_initialized := True\<rparr>)
        else say ErrOverlayCreate w)"

definition ShowSuggestion :: "string \<Rightarrow> world \<Rightarrow> world" where
  "ShowSuggestion suggestion w =
     (if \<not> SuggestionOverlay_initialized w \<or> \<not> s_overlayWindow w then w
      else say (OverlayShowing suggestion)
             (w\<lparr>s_currentSuggestion := suggestion, overlay_visible := True\<rparr>))"

definition HideSuggestion :: "world \<Rightarrow> world" where
  "HideSuggestion w =
     (if \<not> SuggestionOverlay_initialized w \<or> \<not> s_overlayWindow w then w
      else say OverlayHidden (w\<lparr>overlay_visible := False, s_currentSuggestion := []\<rparr>))"

definition SuggestionOverlay_Cleanup :: "world \<Rightarrow> world" where
  "SuggestionOverlay_Cleanup w =
     (let w1 = (if s_overlayWindow w then w\<lparr>overlay_visible := False, s_overlayWindow := False\<rparr> else w)
      in w1\<lparr>SuggestionOverlay_initialized := False\<rparr>)"

section \<open>SpecialKeyHandler (special\_keys.cpp)\<close>

text \<open>\<open>std::vector::resize\<close>: keeps the first \<open>n\<close> elements and fills up with
  default-constructed ones.\<close>

definition resize_states :: "nat \<Rightarrow> SpecialKeyState list \<Rightarrow> SpecialKeyState list" where
  "resize_states n xs = take n xs @ replicate (n - length xs) SpecialKeyState_new"

definition SpecialKeyHandler_Initialize :: "world \<Rightarrow> world" where
  "SpecialKeyHandler_Initialize w =
     (let w1 = w\<lparr>s_specialKeys := [VK_CONTROL, VK_SHIFT, VK_MENU]\<rparr>;
          w2 = w1\<lparr>s_specialKeyStates := resize_states (length (s_specialKeys w1)) (s_specialKeyStates w1)\<rparr>
      in say SpecialHandlerInitialized w2)"

text \<open>
  The search loop of \<open>GetSpecialKeyIndex\<close>, from position \<open>i\<close> on. The index is returned
  as an \<open>int\<close>; the cast of the \<open>size_t\<close> position is exact below \<open>2^31\<close> entries.
\<close>

fun GetSpecialKeyIndex_from :: "nat \<Rightarrow> WORD list \<Rightarrow> WORD \<Rightarrow> int" where
  "GetSpecialKeyIndex_from i [] v = - 1"
| "GetSpecialKeyIndex_from i (k # ks) v =
     (if k = v then int i else GetSpecialKeyIndex_from (Suc i) ks v)"

definition GetSpecialKeyIndex :: "WORD \<Rightarrow> world \<Rightarrow> int" where
  "GetSpecialKeyIndex v w = GetSpecialKeyIndex_from 0 (s_specialKeys w) v"

definition IsSpecialKey :: "WORD \<Rightarrow> world \<Rightarrow> bool" where
  "IsSpecialKey v w = (0 \<le> GetSpecialKeyIndex v w)"

definition GetKeyName :: "WORD \<Rightarrow> string" where
  "GetKeyName v =
     (if v = VK_CONTROL then ''Ctrl''
      else if v = VK_SHIFT then ''Shift''
      else if v = VK_MENU then ''Alt''
      else ''Unknown'')"

definition OnLeftCtrlPressed ::
  "os_env \<Rightarrow> uint64_t \<Rightarrow> uint64_t \<Rightarrow> POINT \<Rightarrow> POINT \<Rightarrow> world \<Rightarrow> world" where
  "OnLeftCtrlPressed env pressTime releaseTime pressPos releasePos w =
     (let w1 = say GeneratingCompletion w;
          result = system_exit env (os_calls w1);
          w2 = w1\<lparr>os_calls := os_calls w1 @ [System ''python process_input.py'' result]\<rparr>;
          w3 =
            (if result = 0 then
               (case read_python_output env (os_calls w2) of
                  FirstLine outputLine \<Rightarrow>
                    (if outputLine \<noteq> [] then
                       say (ReadyCompletion outputLine)
                         (ShowSuggestion outputLine
                            (w2\<lparr>s_pendingSuggestion := outputLine, s_hasPendingSuggestion := True\<rparr>))
                     else (say NoCompletionAvailable w2)\<lparr>s_hasPendingSuggestion := False\<rparr>)
                | CannotRead \<Rightarrow> (say ErrCouldNotReadPythonOutput w2)\<lparr>s_hasPendingSuggestion := False\<rparr>
                | CannotOpen \<Rightarrow> (say ErrCouldNotOpenPythonOutput w2)\<lparr>s_hasPendingSuggestion := False\<rparr>)
             else (say (ErrPythonFailed result) w2)\<lparr>s_hasPendingSuggestion := False\<rparr>)
      in say GenerationCompleted w3)"

definition OnRightCtrlPressed ::
  "os_env \<Rightarrow> uint64_t \<Rightarrow> uint64_t \<Rightarrow> POINT \<Rightarrow> POINT \<Rightarrow> world \<Rightarrow> world" where
  "OnRightCtrlPressed env pressTime releaseTime pressPos releasePos w =
     (let w1 = say RightCtrlBanner w;
          w2 =
            (if s_hasPendingSuggestion w1 \<and> s_pendingSuggestion w1 \<noteq> [] then
               (case SendTextString env (s_pendingSuggestion w1)
                       (say (AcceptingSuggestion (s_pendingSuggestion w1)) w1) of
                  (success, w3) \<Rightarrow>
                    (let w4 = (if success then say (InjectedText (length (s_pendingSuggestion w3))) w3
                               else say ErrFailedToInject w3)
                     in HideSuggestion
                          (w4\<lparr>s_pendingSuggestion := [], s_hasPendingSuggestion := False\<rparr>)))
             else say NoPendingSuggestion w1)
      in say RightCtrlCompleted w2)"

definition OnShiftPressed ::
  "uint64_t \<Rightarrow> uint64_t \<Rightarrow> POINT \<Rightarrow> POINT \<Rightarrow> world \<Rightarrow> world" where
  "OnShiftPressed pressTime releaseTime pressPos releasePos w = say ShiftBanner w"

definition OnAltPressed ::
  "uint64_t \<Rightarrow> uint64_t \<Rightarrow> POINT \<Rightarrow> POINT \<Rightarrow> world \<Rightarrow> world" where
  "OnAltPressed pressTime releaseTime pressPos releasePos w = say AltBanner w"

definition OnSpecialKeyPressed ::
  "WORD \<Rightarrow> uint64_t \<Rightarrow> uint64_t \<Rightarrow> POINT \<Rightarrow> POINT \<Rightarrow> world \<Rightarrow> world" where
  "OnSpecialKeyPressed v pressTime releaseTime pressPos releasePos w =
     (if v = VK_SHIFT then OnShiftPressed pressTime releaseTime pressPos releasePos w
      else if v = VK_MENU then OnAltPressed pressTime releaseTime pressPos releasePos w
      else say (SpecialKeyHook (GetKeyName v) v (releaseTime - pressTime) pressPos releasePos) w)"

text \<open>
  \<open>keyState\<close> is a reference to \<open>s_specialKeyStates[specialKeyIndex]\<close>. The two vectors
  have the same length in every state the program reaches (\<open>Initialize\<close> and
  \<open>AddSpecialKey\<close> keep it so), which makes the index valid; the handlers do not
  touch the vector, so the two final assignments are made to the entry as the handler
  left it.
\<close>

definition ProcessSpecialKeyEvent ::
  "os_env \<Rightarrow> WORD \<Rightarrow> WORD \<Rightarrow> bool \<Rightarrow> uint64_t \<Rightarrow> POINT \<Rightarrow> world \<Rightarrow> bool \<times> world" where
  "ProcessSpecialKeyEvent env v fl up timestamp cursorPos w =
     (let specialKeyIndex = GetSpecialKeyIndex v w in
      if specialKeyIndex < 0 then (False, w)
      else
        (let i = nat specialKeyIndex;
             keyState = s_specialKeyStates w ! i
         in if \<not> up then
              (True, w\<lparr>s_specialKeyStates := (s_specialKeyStates w)
                 [i := keyState\<lparr>isPressed := True, hadInterveningKeys := False,
                                 pressTimestamp := timestamp, pressPosition := cursorPos\<rparr>]\<rparr>)
            else
              (let w1 =
                 (if isPressed keyState \<and> \<not> hadInterveningKeys keyState then
                    (if v = VK_CONTROL then
                       (if fl AND RI_KEY_E0 \<noteq> 0 then
                          OnRightCtrlPressed env (pressTimestamp keyState) timestamp
                            (pressPosition keyState) cursorPos (say RightCtrlPressedAlone w)
                        else
                          OnLeftCtrlPressed env (pressTimestamp keyState) timestamp
                            (pressPosition keyState) cursorPos (say LeftCtrlTrigger w))
                     else
                       OnSpecialKeyPressed v (pressTimestamp keyState) timestamp
                         (pressPosition keyState) cursorPos (say (PressedAlone (GetKeyName v)) w))
                  else if isPressed keyState \<and> hadInterveningKeys keyState then
                    (if v = VK_CONTROL then
                       say (PartOfCombination
                              (if fl AND RI_KEY_E0 \<noteq> 0 then ''Right Ctrl'' else ''Left Ctrl'')) w
                     else say (PartOfCombination (GetKeyName v)) w)
                  else w)
               in (True, w1\<lparr>s_specialKeyStates := (s_specialKeyStates w1)
                     [i := (s_specialKeyStates w1 ! i)\<lparr>isPressed := False, hadInterveningKeys := False\<rparr>]\<rparr>))))"

definition AddSpecialKey :: "WORD \<Rightarrow> world \<Rightarrow> world" where
  "AddSpecialKey v w =
     (if 0 \<le> GetSpecialKeyIndex v w then w
      else w\<lparr>s_specialKeys := s_specialKeys w @ [v],
             s_specialKeyStates := s_specialKeyStates w @ [SpecialKeyState_new]\<rparr>)"

definition GetSpecialKeys :: "world \<Rightarrow> WORD list" where
  "GetSpecialKeys w = s_specialKeys w"

text \<open>One round of the loop of \<open>NotifyRegularKeyPressed\<close>, at index \<open>i\<close>.\<close>

definition NotifyRegularKeyPressed_at :: "WORD \<Rightarrow> nat \<Rightarrow> world \<Rightarrow> world" where
  "NotifyRegularKeyPressed_at v i w =
     (if isPressed (s_specialKeyStates w ! i) then
        say (Combo (GetKeyName (s_specialKeys w ! i)) v)
          (w\<lparr>s_specialKeyStates := (s_specialKeyStates w)
                [i := (s_specialKeyStates w ! i)\<lparr>hadInterveningKeys := True\<rparr>]\<rparr>)
      else w)"

definition NotifyRegularKeyPressed :: "WORD \<Rightarrow> world \<Rightarrow> world" where
  "NotifyRegularKeyPressed v w =
     fold (NotifyRegularKeyPressed_at v) [0 ..< length (s_specialKeys w)] w"

section \<open>EventLogger (event\_logger.cpp)\<close>

definition EventLogger_Initialize :: "os_env \<Rightarrow> world \<Rightarrow> world" where
  "EventLogger_Initialize env w =
     say LoggerInitialized
       (w\<lparr>EventLogger_initialized := True, s_shiftPressed := False,
          s_capsLockOn := GetKeyState_caps_toggled env\<rparr>)"

definition ClearLogFile :: "os_env \<Rightarrow> world \<Rightarrow> world" where
  "ClearLogFile env w =
     (if log_open_ok env then say LogCleared (w\<lparr>log_file := []\<rparr>)
      else say WarnLogNotCleared w)"

definition IsPrintableKey :: "WORD \<Rightarrow> bool" where
  "IsPrintableKey v =
     (if (0x41 \<le> v \<and> v \<le> 0x5A) \<or> (0x30 \<le> v \<and> v \<le> 0x39) then True
      else v \<in> {VK_SPACE, VK_OEM_1, VK_OEM_PLUS, VK_OEM_COMMA, VK_OEM_MINUS, VK_OEM_PERIOD,
                 VK_OEM_2, VK_OEM_3, VK_OEM_4, VK_OEM_5, VK_OEM_6, VK_OEM_7})"

text \<open>
  \<open>VKeyToChar\<close> reads the two modifier flags. The arithmetic on the letter is done in
  \<open>int\<close>, as C++ promotes it, and narrowed to a \<open>char\<close>; \<open>s_shiftPressed ^ s_capsLockOn\<close>
  on two \<open>bool\<close>s is their inequality.
\<close>

definition VKeyToChar :: "WORD \<Rightarrow> world \<Rightarrow> string" where
  "VKeyToChar v w =
     (if \<not> IsPrintableKey v then []
      else if 0x41 \<le> v \<and> v \<le> 0x5A then
        (let letter = (char_of (65 + (uint v - 0x41)) :: char);
             shouldBeUppercase = (s_shiftPressed w \<noteq> s_capsLockOn w)
         in [if \<not> shouldBeUppercase then char_of ((of_char letter :: int) - 65 + 97) else letter])
      else if 0x30 \<le> v \<and> v \<le> 0x39 then
        (if s_shiftPressed w then ['')!@#$%^&*('' ! unat (v - 0x30)]
         else [char_of (48 + (uint v - 0x30))])
      else if v = VK_SPACE then '' ''
      else if v = VK_OEM_1 then (if s_shiftPressed w then '':'' else '';'')
      else if v = VK_OEM_PLUS then (if s_shiftPressed w then ''+'' else ''='')
      else if v = VK_OEM_COMMA then (if s_shiftPressed w then ''<'' else '','')
      else if v = VK_OEM_MINUS then (if s_shiftPressed w then ''_'' else ''-'')
      else if v = VK_OEM_PERIOD then (if s_shiftPressed w then ''>'' else ''.'')
      else if v = VK_OEM_2 then (if s_shiftPressed w then ''?'' else ''/'')
      else if v = VK_OEM_3 then (if s_shiftPressed w then ''~'' else [CHR 0x60])
      else if v = VK_OEM_4 then (if s_shiftPressed w then ''{'' else ''['')
      else if v = VK_OEM_5 then (if s_shiftPressed w then ''|'' else [CHR 0x5C])
      else if v = VK_OEM_6 then (if s_shiftPressed w then ''}'' else '']'')
      else if v = VK_OEM_7 then (if s_shiftPressed w then [CHR 0x22] else [CHR 0x27])
      else [])"

definition UpdateModifierStates :: "WORD \<Rightarrow> bool \<Rightarrow> world \<Rightarrow> world" where
  "UpdateModifierStates v up w =
     (if v = VK_SHIFT \<or> v = VK_LSHIFT \<or> v = VK_RSHIFT then w\<lparr>s_shiftPressed := \<not> up\<rparr>
      else if v = VK_CAPITAL then (if \<not> up then w\<lparr>s_capsLockOn := \<not> s_capsLockOn w\<rparr> else w)
      else w)"

definition WriteLogEntry :: "os_env \<Rightarrow> log_entry \<Rightarrow> world \<Rightarrow> world" where
  "WriteLogEntry env e w =
     (if log_open_ok env then w\<lparr>log_file := log_file w @ [e]\<rparr>
      else say ErrLogNotWritable w)"

definition LogKeyboardEvent :: "os_env \<Rightarrow> uint64_t \<Rightarrow> WORD \<Rightarrow> bool \<Rightarrow> world \<Rightarrow> world" where
  "LogKeyboardEvent env timestamp v up w =
     (if \<not> EventLogger_initialized w then say ErrLoggerNotInitialized w
      else
        (let w1 = UpdateModifierStates v up w;
             charValue = VKeyToChar v w1
         in WriteLogEntry env (KeyboardEntry timestamp up v charValue) w1))"

section \<open>main.cpp: start-up and the keyboard branch of ProcessRawInput\<close>

definition StoreEvent :: "os_env \<Rightarrow> uint64_t \<Rightarrow> POINT \<Rightarrow> KeyboardEventData \<Rightarrow> world \<Rightarrow> world" where
  "StoreEvent env timestamp cursorPos kbData w =
     LogKeyboardEvent env timestamp (vKey kbData) (isKeyUp kbData)
       (w\<lparr>g_eventHistory := g_eventHistory w @ [(timestamp, cursorPos, kbData)]\<rparr>)"

definition InitializeEventLog :: "os_env \<Rightarrow> world \<Rightarrow> world" where
  "InitializeEventLog env w = ClearLogFile env (EventLogger_Initialize env w)"

text \<open>The four initialisations at the start of \<open>main\<close>, in its order.\<close>

definition main_startup :: "os_env \<Rightarrow> world \<Rightarrow> world" where
  "main_startup env w =
     SuggestionOverlay_Initialize env
       (InputInjector_Initialize (SpecialKeyHandler_Initialize (InitializeEventLog env w)))"

text \<open>
  The branch \<open>raw->header.dwType == RIM_TYPEKEYBOARD\<close> of \<open>ProcessRawInput\<close>, once the raw
  data has been read: \<open>kbVKey\<close>, \<open>kbMakeCode\<close> and \<open>kbFlags\<close> are the fields of the
  \<open>RAWKEYBOARD\<close>, \<open>timestamp\<close> and \<open>cursorPos\<close> what \<open>GetTimestampMicros\<close> and
  \<open>GetCursorPos\<close> returned.
\<close>

definition ProcessRawInput_keyboard ::
  "os_env \<Rightarrow> uint64_t \<Rightarrow> POINT \<Rightarrow> WORD \<Rightarrow> WORD \<Rightarrow> WORD \<Rightarrow> world \<Rightarrow> world" where
  "ProcessRawInput_keyboard env timestamp cursorPos kbVKey kbMakeCode kbFlags w =
     (let up = (kbFlags AND RI_KEY_BREAK \<noteq> 0);
          kbData = \<lparr>vKey = kbVKey, scanCode = kbMakeCode, flags = kbFlags, isKeyUp = up\<rparr>;
          w1 = StoreEvent env timestamp cursorPos kbData w
      in if kbVKey = VK_ESCAPE \<and> \<not> up then
           (say (EscShutdown timestamp) w1)\<lparr>g_running := False, quit_posted := True\<rparr>
         else
           (let w2 =
              (if \<not> up then
                 (let isLeftCtrl = (kbVKey = VK_CONTROL \<and> kbFlags AND RI_KEY_E0 = 0);
                      isRightCtrl = (kbVKey = VK_CONTROL \<and> kbFlags AND RI_KEY_E0 \<noteq> 0)
                  in if \<not> isLeftCtrl then HideSuggestion w1 else w1)
               else w1)
            in case ProcessSpecialKeyEvent env kbVKey kbFlags up timestamp cursorPos w2 of
                 (hookTriggered, w3) \<Rightarrow>
                   (let w4 = (if \<not> hookTriggered \<and> \<not> up then NotifyRegularKeyPressed kbVKey w3 else w3)
                    in if \<not> hookTriggered then
                         say (KeyLine timestamp kbVKey kbMakeCode up
                                (if IsSpecialKey kbVKey w4 then Some (GetKeyName kbVKey) else None)
                                cursorPos) w4
                       else w4)))"

section \<open>Sample environments and observations\<close>

text \<open>
  A keyboard layout answering as the US layout does on the characters it covers (upper-case
  letters need shift; lower-case letters, digits and the space do not), and \<open>-1\<close>
  elsewhere. It only instantiates theorems that hold for every layout.
\<close>

definition sample_VkKeyScanA :: "char \<Rightarrow> SHORT" where
  "sample_VkKeyScanA c =
     (let n = (of_char c :: nat) in
      if 65 \<le> n \<and> n \<le> 90 then 0x100 + of_nat n
      else if 97 \<le> n \<and> n \<le> 122 then of_nat (n - 32)
      else if 48 \<le> n \<and> n \<le> 57 then of_nat n
      else if n = 32 then 0x20
      else - 1)"

text \<open>A system that accepts every synthetic input and has no suggestion script, and one
  that rejects every synthetic input.\<close>

definition env_accept :: os_env where
  "env_accept =
     \<lparr>SendInput_ok = (\<lambda>tr vk up. True), VkKeyScanA = sample_VkKeyScanA,
      system_exit = (\<lambda>tr. 1), read_python_output = (\<lambda>tr. CannotOpen),
      GetKeyState_caps_toggled = False, CreateOverlayWindow_ok = True, log_open_ok = True\<rparr>"

definition env_reject :: os_env where
  "env_reject = env_accept\<lparr>SendInput_ok := (\<lambda>tr vk up. False)\<rparr>"

text \<open>The keyboard inputs handed to \<open>SendInput\<close>, in order, as (virtual key, key-up).\<close>

fun sent_key :: "os_call \<Rightarrow> (WORD \<times> bool) list" where
  "sent_key (SendInput vk up ok) = [(vk, up)]"
| "sent_key (Sleep ms) = []"
| "sent_key (System cmd r) = []"

definition sent_keys :: "world \<Rightarrow> (WORD \<times> bool) list" where
  "sent_keys w = concat (map sent_key (os_calls w))"

text \<open>A system that rejects the first synthetic input of the process and accepts the
  later ones.\<close>

definition env_reject_first :: os_env where
  "env_reject_first = env_accept\<lparr>SendInput_ok := (\<lambda>tr vk up. tr \<noteq> [])\<rparr>"

text \<open>A system that rejects the synthetic shift inputs and accepts all others.\<close>

definition env_reject_shift :: os_env where
  "env_reject_shift = env_accept\<lparr>SendInput_ok := (\<lambda>tr vk up. vk \<noteq> VK_SHIFT)\<rparr>"

text \<open>A system that rejects every synthetic input and whose suggestion script succeeds
  with the line \<open>Hi\<close>.\<close>

definition env_suggest :: os_env where
  "env_suggest =
     env_reject\<lparr>system_exit := (\<lambda>tr. 0), read_python_output := (\<lambda>tr. FirstLine ''Hi'')\<rparr>"

text \<open>The program after start-up, and after a suggestion has then been generated.\<close>

definition started :: world where
  "started = main_startup env_suggest static_init"

definition suggested :: world where
  "suggested = OnLeftCtrlPressed env_suggest 0 0 (0, 0) (0, 0) started"

text \<open>
  The program after start-up and these keyboard events: left shift down, right shift down
  (both arrive as \<open>VK_SHIFT\<close>, with different scan codes), left shift up.
\<close>

definition one_shift_still_down :: world where
  "one_shift_still_down =
     ProcessRawInput_keyboard env_suggest 30 (0, 0) VK_SHIFT 0x2A RI_KEY_BREAK
       (ProcessRawInput_keyboard env_suggest 20 (0, 0) VK_SHIFT 0x36 0
          (ProcessRawInput_keyboard env_suggest 10 (0, 0) VK_SHIFT 0x2A 0 started))"

text \<open>The program after start-up and a key-down of the left Ctrl key.\<close>

definition ctrl_down :: world where
  "ctrl_down = ProcessRawInput_keyboard env_suggest 10 (0, 0) VK_CONTROL 0x1D 0 started"

text \<open>The program after start-up, a key-down of the left Ctrl key and then a key-down of
  the left shift key; and after a key-down of the key \<open>A\<close> on top of these.\<close>

definition ctrl_shift_down :: world where
  "ctrl_shift_down = ProcessRawInput_keyboard env_suggest 20 (0, 0) VK_SHIFT 0x2A 0 ctrl_down"

definition ctrl_shift_a_down :: world where
  "ctrl_shift_a_down = ProcessRawInput_keyboard env_suggest 30 (0, 0) 0x41 0x1E 0 ctrl_shift_down"

text \<open>
  The key events one character of a text stands for (section 4.5 of the specification):
  nothing for a character without a virtual key; key-down and key-up of its key; and
  these two between a shift-down and a shift-up when the layout asks for shift.
\<close>

definition expected_char_keys :: "os_env \<Rightarrow> char \<Rightarrow> (WORD \<times> bool) list" where
  "expected_char_keys env c =
     (let vk = CharToVirtualKey env c in
      if vk = 0 then []
      else if HIBYTE (VkKeyScanA env c) AND 1 \<noteq> 0
        then [(VK_SHIFT, False), (vk, False), (vk, True), (VK_SHIFT, True)]
        else [(vk, False), (vk, True)])"

text \<open>
  What sending one character amounts to, told from the system's side (section 4.5 of the
  specification), with \<open>tr\<close> the calls made so far and \<open>d\<close> the inter-key delay: a
  shift-down first when shift is required; the key-down of the target key, and the delay
  if it was accepted; its key-up; the shift-up if shift was pressed; the delay. The
  character's result is that the system accepted its key-down and its key-up; the
  answers to the two shift inputs do not enter it. A character without a virtual key
  makes no call and has no result.
\<close>

definition expected_char_run ::
  "os_env \<Rightarrow> DWORD \<Rightarrow> os_call list \<Rightarrow> char \<Rightarrow> bool option \<times> os_call list" where
  "expected_char_run env d tr c =
     (let vk = CharToVirtualKey env c in
      if vk = 0 then (None, [])
      else
        (let sh = (HIBYTE (VkKeyScanA env c) AND 1 \<noteq> 0);
             pre = (if sh then [SendInput VK_SHIFT False (SendInput_ok env tr VK_SHIFT False)] else []);
             okd = SendInput_ok env (tr @ pre) vk False;
             down = SendInput vk False okd # (if okd \<and> 0 < d then [Sleep d] else []);
             oku = SendInput_ok env (tr @ pre @ down) vk True;
             up = [SendInput vk True oku];
             post = (if sh then [SendInput VK_SHIFT True
                                   (SendInput_ok env (tr @ pre @ down @ up) VK_SHIFT True)]
                     else [])
                    @ (if 0 < d then [Sleep d] else [])
         in (Some (okd \<and> oku), pre @ down @ up @ post)))"

text \<open>The same for a text: every character is sent, one after the other, and the result
  is the conjunction of the results of the characters that have one.\<close>

fun expected_text_run ::
  "os_env \<Rightarrow> DWORD \<Rightarrow> os_call list \<Rightarrow> string \<Rightarrow> bool \<times> os_call list" where
  "expected_text_run env d tr [] = (True, [])"
| "expected_text_run env d tr (c # cs) =
     (case expected_char_run env d tr c of
        (r, calls) \<Rightarrow>
          (case expected_text_run env d (tr @ calls) cs of
             (rs, rest) \<Rightarrow> (r \<noteq> Some False \<and> rs, calls @ rest)))"

text \<open>The result of each round of the loop of \<open>SendTextString\<close>, in the order of the
  text, each round starting in the state the previous one left.\<close>

fun char_results :: "os_env \<Rightarrow> string \<Rightarrow> world \<Rightarrow> bool option list" where
  "char_results env [] w = []"
| "char_results env (c # cs) w =
     (case SendTextString_char env c w of (r, w') \<Rightarrow> r # char_results env cs w')"

definition SendTextString_results :: "os_env \<Rightarrow> string \<Rightarrow> world \<Rightarrow> bool option list" where
  "SendTextString_results env text w = char_results env text (say (SendingText text) w)"

text \<open>
  A state differs from another in its effects only when all static members and globals
  are the same, the console and the system calls apart.
\<close>

definition effects_only :: "world \<Rightarrow> world \<Rightarrow> bool" where
  "effects_only w w' \<longleftrightarrow> w'\<lparr>os_calls := os_calls w, console := console w\<rparr> = w"

text \<open>
  What the console shows of a release of a special key: the handler is announced and
  called (the gesture fires), or the key is reported as part of a combination (the
  gesture is suppressed). \<open>new_console\<close> is what was written between two states.
\<close>

fun gesture_fired_msg :: "console_msg \<Rightarrow> bool" where
  "gesture_fired_msg RightCtrlPressedAlone = True"
| "gesture_fired_msg LeftCtrlTrigger = True"
| "gesture_fired_msg (PressedAlone n) = True"
| "gesture_fired_msg m = False"

fun gesture_suppressed_msg :: "console_msg \<Rightarrow> bool" where
  "gesture_suppressed_msg (PartOfCombination n) = True"
| "gesture_suppressed_msg m = False"

definition new_console :: "world \<Rightarrow> world \<Rightarrow> console_msg list" where
  "new_console w w' = drop (length (console w)) (console w')"

definition gesture_fired :: "world \<Rightarrow> world \<Rightarrow> bool" where
  "gesture_fired w w' = list_ex gesture_fired_msg (new_console w w')"

definition gesture_suppressed :: "world \<Rightarrow> world \<Rightarrow> bool" where
  "gesture_suppressed w w' = list_ex gesture_suppressed_msg (new_console w w')"

text \<open>Between two states the console was only extended, and by no line that reports a
  gesture as fired or suppressed.\<close>

definition quiet_since :: "world \<Rightarrow> world \<Rightarrow> bool" where
  "quiet_since w w' \<longleftrightarrow>
     take (length (console w)) (console w') = console w \<and>
     \<not> list_ex gesture_fired_msg (new_console w w') \<and>
     \<not> list_ex gesture_suppressed_msg (new_console w w')"

text \<open>The two vectors of the handler are kept index by index.\<close>

definition vectors_aligned :: "world \<Rightarrow> bool" where
  "vectors_aligned w \<longleftrightarrow> length (s_specialKeyStates w) = length (s_specialKeys w)"

text \<open>
  The states the program reaches: after the start-up of \<open>main\<close>, by keyboard events
  (whatever the system answers during each) and by calls of \<open>AddSpecialKey\<close>.
\<close>

inductive reachable :: "world \<Rightarrow> bool" where
  reachable_start: "reachable (main_startup env static_init)"
| reachable_key:
    "reachable w \<Longrightarrow> reachable (ProcessRawInput_keyboard env ts pos kbVKey mc kbFlags w)"
| reachable_add: "reachable w \<Longrightarrow> reachable (AddSpecialKey v w)"

text \<open>The two assignments that end the release branch of \<open>ProcessSpecialKeyEvent\<close>, for
  the key at index \<open>i\<close>.\<close>

definition reset_key :: "nat \<Rightarrow> world \<Rightarrow> world" where
  "reset_key i w =
     w\<lparr>s_specialKeyStates := (s_specialKeyStates w)
          [i := (s_specialKeyStates w ! i)\<lparr>isPressed := False, hadInterveningKeys := False\<rparr>]\<rparr>"

text \<open>The state of a monitored key, by its position in \<open>s_specialKeys\<close>.\<close>

definition held :: "world \<Rightarrow> nat \<Rightarrow> bool" where
  "held w i = isPressed (s_specialKeyStates w ! i)"

definition intervened :: "world \<Rightarrow> nat \<Rightarrow> bool" where
  "intervened w i = hadInterveningKeys (s_specialKeyStates w ! i)"

text \<open>A suggestion is on display when the overlay exists and its window is shown.\<close>

definition suggestion_displayed :: "world \<Rightarrow> bool" where
  "suggestion_displayed w \<longleftrightarrow>
     SuggestionOverlay_initialized w \<and> s_overlayWindow w \<and> overlay_visible w"

text \<open>
  From one state to another the overlay was neither created nor destroyed, and its window
  is shown afterwards only if it was shown before or the overlay exists.
\<close>

definition overlay_kept :: "world \<Rightarrow> world \<Rightarrow> bool" where
  "overlay_kept w w' \<longleftrightarrow>
     SuggestionOverlay_initialized w' = SuggestionOverlay_initialized w \<and>
     s_overlayWindow w' = s_overlayWindow w \<and>
     (overlay_visible w' \<longrightarrow>
        overlay_visible w \<or> (SuggestionOverlay_initialized w \<and> s_overlayWindow w))"

definition is_upper :: "char \<Rightarrow> bool" where
  "is_upper c \<longleftrightarrow> 65 \<le> (of_char c :: nat) \<and> (of_char c :: nat) \<le> 90"

definition is_lower :: "char \<Rightarrow> bool" where
  "is_lower c \<longleftrightarrow> 97 \<le> (of_char c :: nat) \<and> (of_char c :: nat) \<le> 122"

section \<open>Properties of the injector\<close>

subsection \<open>Frames\<close>

lemma effects_only_refl: "effects_only w w"
  by (simp add: effects_only_def)

lemma effects_only_trans:
  assumes "effects_only w w'" and "effects_only w' w''"
  shows "effects_only w w''"
proof -
  from assms have a: "w'\<lparr>os_calls := os_calls w, console := console w\<rparr> = w"
    and b: "w''\<lparr>os_calls := os_calls w', console := console w'\<rparr> = w'"
    by (simp_all add: effects_only_def)
  have "w''\<lparr>os_calls := os_calls w, console := console w\<rparr>
      = (w''\<lparr>os_calls := os_calls w', console := console w'\<rparr>)\<lparr>os_calls := os_calls w, console := console w\<rparr>"
    by simp
  also have "\<dots> = w" by (simp only: a b)
  finally show ?thesis by (simp add: effects_only_def)
qed

lemma effects_only_say: "effects_only w (say m w)"
  by (simp add: effects_only_def say_def)

lemma effects_only_sleep: "effects_only w (sleep_for ms w)"
  by (simp add: effects_only_def sleep_for_def)

lemma effects_only_fields:
  assumes "effects_only w w'"
  shows "InputInjector_initialized w' = InputInjector_initialized w"
    and "s_keyDelayMs w' = s_keyDelayMs w"
    and "s_pendingSuggestion w' = s_pendingSuggestion w"
    and "s_hasPendingSuggestion w' = s_hasPendingSuggestion w"
    and "s_specialKeys w' = s_specialKeys w"
    and "s_specialKeyStates w' = s_specialKeyStates w"
    and "s_overlayWindow w' = s_overlayWindow w"
    and "SuggestionOverlay_initialized w' = SuggestionOverlay_initialized w"
    and "s_currentSuggestion w' = s_currentSuggestion w"
    and "overlay_visible w' = overlay_visible w"
proof -
  from assms have e: "w'\<lparr>os_calls := os_calls w, console := console w\<rparr> = w"
    by (simp add: effects_only_def)
  show "InputInjector_initialized w' = InputInjector_initialized w"
    using arg_cong [OF e, of InputInjector_initialized] by simp
  show "s_keyDelayMs w' = s_keyDelayMs w"
    using arg_cong [OF e, of s_keyDelayMs] by simp
  show "s_pendingSuggestion w' = s_pendingSuggestion w"
    using arg_cong [OF e, of s_pendingSuggestion] by simp
  show "s_hasPendingSuggestion w' = s_hasPendingSuggestion w"
    using arg_cong [OF e, of s_hasPendingSuggestion] by simp
  show "s_specialKeys w' = s_specialKeys w"
    using arg_cong [OF e, of s_specialKeys] by simp
  show "s_specialKeyStates w' = s_specialKeyStates w"
    using arg_cong [OF e, of s_specialKeyStates] by simp
  show "s_overlayWindow w' = s_overlayWindow w"
    using arg_cong [OF e, of s_overlayWindow] by simp
  show "SuggestionOverlay_initialized w' = SuggestionOverlay_initialized w"
    using arg_cong [OF e, of SuggestionOverlay_initialized] by simp
  show "s_currentSuggestion w' = s_currentSuggestion w"
    using arg_cong [OF e, of s_currentSuggestion] by simp
  show "overlay_visible w' = overlay_visible w"
    using arg_cong [OF e, of overlay_visible] by simp
qed

lemma effects_only_SendInputHelper: "effects_only w (snd (SendInputHelper env vk up w))"
  by (simp add: SendInputHelper_def effects_only_def say_def Let_def)

lemma effects_only_SendVirtualKey: "effects_only w (snd (SendVirtualKey env vk up w))"
  by (simp add: SendVirtualKey_def effects_only_SendInputHelper effects_only_say)



lemma effects_only_SendKeyPress: "effects_only w (snd (SendKeyPress env vk w))"
proof -
  obtain s w1 where a: "SendVirtualKey env vk False w = (s, w1)" by fastforce
  have e1: "effects_only w w1" using effects_only_SendVirtualKey [of w env vk False] a by simp
  define w2 where "w2 = (if s \<and> 0 < s_keyDelayMs w1 then sleep_for (s_keyDelayMs w1) w1 else w1)"
  have e2: "effects_only w1 w2" by (simp add: w2_def effects_only_sleep effects_only_refl)
  have e3: "effects_only w2 (snd (SendVirtualKey env vk True w2))" by (rule effects_only_SendVirtualKey)
  have "snd (SendKeyPress env vk w) = snd (SendVirtualKey env vk True w2)"
    unfolding SendKeyPress_def a w2_def by (simp add: case_prod_beta)
  with e1 e2 e3 show ?thesis using effects_only_trans by metis
qed


subsection \<open>Console extensions without gesture lines\<close>

lemma quiet_sinceI:
  assumes "console w' = console w @ out"
    and "\<not> list_ex gesture_fired_msg out" and "\<not> list_ex gesture_suppressed_msg out"
  shows "quiet_since w w'"
  using assms by (simp add: quiet_since_def new_console_def)

lemma quiet_sinceD:
  assumes "quiet_since w w'"
  shows "\<exists>out. console w' = console w @ out \<and> \<not> list_ex gesture_fired_msg out
           \<and> \<not> list_ex gesture_suppressed_msg out"
proof -
  from assms have "console w' = console w @ new_console w w'"
    unfolding quiet_since_def new_console_def by (metis append_take_drop_id)
  with assms show ?thesis unfolding quiet_since_def by blast
qed

lemma quiet_since_refl: "quiet_since w w"
  by (rule quiet_sinceI [where out = "[]"]) simp_all

lemma quiet_since_trans:
  assumes "quiet_since w w'" and "quiet_since w' w''"
  shows "quiet_since w w''"
proof -
  from quiet_sinceD [OF assms(1)] obtain a where a: "console w' = console w @ a"
    "\<not> list_ex gesture_fired_msg a" "\<not> list_ex gesture_suppressed_msg a" by blast
  from quiet_sinceD [OF assms(2)] obtain b where b: "console w'' = console w' @ b"
    "\<not> list_ex gesture_fired_msg b" "\<not> list_ex gesture_suppressed_msg b" by blast
  show ?thesis
    by (rule quiet_sinceI [where out = "a @ b"]) (use a b in \<open>auto simp: list_ex_iff\<close>)
qed

lemma quiet_since_say:
  "\<not> gesture_fired_msg m \<Longrightarrow> \<not> gesture_suppressed_msg m \<Longrightarrow> quiet_since w (say m w)"
  by (rule quiet_sinceI [where out = "[m]"]) (simp_all add: say_def)

lemma quiet_since_same: "console w' = console w \<Longrightarrow> quiet_since w w'"
  by (rule quiet_sinceI [where out = "[]"]) simp_all

lemma quiet_since_sleep: "quiet_since w (sleep_for ms w)"
  by (rule quiet_since_same) (simp add: sleep_for_def)

subsection \<open>SendInputHelper and SendVirtualKey\<close>

lemma sent_keys_say [simp]: "sent_keys (say m w) = sent_keys w"
  by (simp add: sent_keys_def say_def)

lemma sent_keys_sleep [simp]: "sent_keys (sleep_for ms w) = sent_keys w"
  by (simp add: sent_keys_def sleep_for_def)

lemma initialized_say [simp]: "InputInjector_initialized (say m w) = InputInjector_initialized w"
  by (simp add: say_def)

lemma sent_keys_SendInputHelper:
  "sent_keys (snd (SendInputHelper env vk up w)) = sent_keys w @ [(vk, up)]"
  by (simp add: SendInputHelper_def Let_def sent_keys_def say_def)

lemma quiet_SendInputHelper: "quiet_since w (snd (SendInputHelper env vk up w))"
proof (cases "SendInput_ok env (os_calls w) vk up")
  case True
  then show ?thesis by (simp add: SendInputHelper_def Let_def quiet_since_same)
next
  case False
  then have "console (snd (SendInputHelper env vk up w)) = console w @ [ErrSendInputFailed]"
    by (simp add: SendInputHelper_def Let_def say_def)
  then show ?thesis by (rule quiet_sinceI) simp_all
qed

lemma sent_keys_SendVirtualKey:
  "InputInjector_initialized w \<Longrightarrow>
   sent_keys (snd (SendVirtualKey env vk up w)) = sent_keys w @ [(vk, up)]"
  by (simp add: SendVirtualKey_def sent_keys_SendInputHelper)

lemma quiet_SendVirtualKey: "quiet_since w (snd (SendVirtualKey env vk up w))"
  by (simp add: SendVirtualKey_def quiet_SendInputHelper quiet_since_say)

lemma initialized_SendVirtualKey:
  "InputInjector_initialized (snd (SendVirtualKey env vk up w)) = InputInjector_initialized w"
  by (rule effects_only_fields(1) [OF effects_only_SendVirtualKey])

subsection \<open>SendKeyPress\<close>

lemma SendKeyPress_unfold:
  "SendKeyPress env vk w =
     (let p = SendVirtualKey env vk False w;
          w2 = (if fst p \<and> 0 < s_keyDelayMs (snd p) then sleep_for (s_keyDelayMs (snd p)) (snd p) else snd p);
          q = SendVirtualKey env vk True w2
      in (fst p \<and> fst q, snd q))"
  by (simp add: SendKeyPress_def case_prod_beta Let_def)

lemma sent_keys_SendKeyPress:
  assumes "InputInjector_initialized w"
  shows "sent_keys (snd (SendKeyPress env vk w)) = sent_keys w @ [(vk, False), (vk, True)]"
proof -
  define p where "p = SendVirtualKey env vk False w"
  define w2 where "w2 = (if fst p \<and> 0 < s_keyDelayMs (snd p) then sleep_for (s_keyDelayMs (snd p)) (snd p) else snd p)"
  have i1: "InputInjector_initialized (snd p)" using assms by (simp add: p_def initialized_SendVirtualKey)
  have i2: "InputInjector_initialized w2" using i1 by (simp add: w2_def sleep_for_def)
  have k1: "sent_keys (snd p) = sent_keys w @ [(vk, False)]"
    using assms by (simp add: p_def sent_keys_SendVirtualKey)
  have k2: "sent_keys w2 = sent_keys (snd p)" by (simp add: w2_def)
  have "snd (SendKeyPress env vk w) = snd (SendVirtualKey env vk True w2)"
    by (simp add: SendKeyPress_unfold Let_def p_def w2_def)
  then show ?thesis using i2 k1 k2 by (simp add: sent_keys_SendVirtualKey)
qed

lemma quiet_SendKeyPress: "quiet_since w (snd (SendKeyPress env vk w))"
proof -
  define p where "p = SendVirtualKey env vk False w"
  define w2 where "w2 = (if fst p \<and> 0 < s_keyDelayMs (snd p) then sleep_for (s_keyDelayMs (snd p)) (snd p) else snd p)"
  have q1: "quiet_since w (snd p)" by (simp add: p_def quiet_SendVirtualKey)
  have q2: "quiet_since (snd p) w2" by (simp add: w2_def quiet_since_sleep quiet_since_refl)
  have q3: "quiet_since w2 (snd (SendVirtualKey env vk True w2))" by (rule quiet_SendVirtualKey)
  have "snd (SendKeyPress env vk w) = snd (SendVirtualKey env vk True w2)"
    by (simp add: SendKeyPress_unfold Let_def p_def w2_def)
  with q1 q2 q3 show ?thesis using quiet_since_trans by metis
qed


subsection \<open>One character\<close>

lemma SendTextString_char_skip:
  "CharToVirtualKey env c = 0 \<Longrightarrow>
   SendTextString_char env c w = (None, say (WarnCannotConvert c) w)"
  by (simp add: SendTextString_char_def)

lemma SendTextString_char_unfold:
  assumes "CharToVirtualKey env c \<noteq> 0"
  shows "SendTextString_char env c w =
     (let sh = (HIBYTE (VkKeyScanA env c) AND 1 \<noteq> 0);
          w1 = (if sh then snd (SendVirtualKey env VK_SHIFT False w) else w);
          p = SendKeyPress env (CharToVirtualKey env c) w1;
          w3 = (if sh then snd (SendVirtualKey env VK_SHIFT True (snd p)) else snd p);
          w4 = (if 0 < s_keyDelayMs w3 then sleep_for (s_keyDelayMs w3) w3 else w3)
      in (Some (fst p), w4))"
  using assms by (simp add: SendTextString_char_def case_prod_beta Let_def)

lemma effects_only_SendTextString_char: "effects_only w (snd (SendTextString_char env c w))"
proof (cases "CharToVirtualKey env c = 0")
  case True
  then show ?thesis by (simp add: SendTextString_char_skip effects_only_say)
next
  case False
  define sh where "sh = (HIBYTE (VkKeyScanA env c) AND 1 \<noteq> 0)"
  define w1 where "w1 = (if sh then snd (SendVirtualKey env VK_SHIFT False w) else w)"
  define w2 where "w2 = snd (SendKeyPress env (CharToVirtualKey env c) w1)"
  define w3 where "w3 = (if sh then snd (SendVirtualKey env VK_SHIFT True w2) else w2)"
  define w4 where "w4 = (if 0 < s_keyDelayMs w3 then sleep_for (s_keyDelayMs w3) w3 else w3)"
  have r: "snd (SendTextString_char env c w) = w4"
    using False by (simp add: SendTextString_char_unfold Let_def w4_def w3_def w2_def w1_def sh_def)
  have "effects_only w w1" by (simp add: w1_def effects_only_SendVirtualKey effects_only_refl)
  moreover have "effects_only w1 w2" by (simp add: w2_def effects_only_SendKeyPress)
  moreover have "effects_only w2 w3" by (simp add: w3_def effects_only_SendVirtualKey effects_only_refl)
  moreover have "effects_only w3 w4" by (simp add: w4_def effects_only_sleep effects_only_refl)
  ultimately show ?thesis unfolding r using effects_only_trans by metis
qed

lemma fst_SendTextString_char_None:
  "fst (SendTextString_char env c w) = None \<longleftrightarrow> CharToVirtualKey env c = 0"
  by (cases "CharToVirtualKey env c = 0")
     (simp_all add: SendTextString_char_skip SendTextString_char_unfold Let_def)

lemma initialized_SendTextString_char:
  "InputInjector_initialized (snd (SendTextString_char env c w)) = InputInjector_initialized w"
  by (rule effects_only_fields(1) [OF effects_only_SendTextString_char])

lemma sent_keys_SendTextString_char:
  assumes "InputInjector_initialized w"
  shows "sent_keys (snd (SendTextString_char env c w)) = sent_keys w @ expected_char_keys env c"
proof (cases "CharToVirtualKey env c = 0")
  case True
  then show ?thesis by (simp add: SendTextString_char_skip expected_char_keys_def)
next
  case False
  define sh where "sh = (HIBYTE (VkKeyScanA env c) AND 1 \<noteq> 0)"
  define w1 where "w1 = (if sh then snd (SendVirtualKey env VK_SHIFT False w) else w)"
  define w2 where "w2 = snd (SendKeyPress env (CharToVirtualKey env c) w1)"
  define w3 where "w3 = (if sh then snd (SendVirtualKey env VK_SHIFT True w2) else w2)"
  define w4 where "w4 = (if 0 < s_keyDelayMs w3 then sleep_for (s_keyDelayMs w3) w3 else w3)"
  have r: "snd (SendTextString_char env c w) = w4"
    using False by (simp add: SendTextString_char_unfold Let_def w4_def w3_def w2_def w1_def sh_def)
  have i1: "InputInjector_initialized w1"
    using assms by (simp add: w1_def initialized_SendVirtualKey)
  have i2: "InputInjector_initialized w2"
    using i1 effects_only_fields(1) [OF effects_only_SendKeyPress] by (simp add: w2_def)
  have k1: "sent_keys w1 = sent_keys w @ (if sh then [(VK_SHIFT, False)] else [])"
    using assms by (simp add: w1_def sent_keys_SendVirtualKey)
  have k2: "sent_keys w2 = sent_keys w1 @ [(CharToVirtualKey env c, False), (CharToVirtualKey env c, True)]"
    using i1 by (simp add: w2_def sent_keys_SendKeyPress)
  have k3: "sent_keys w3 = sent_keys w2 @ (if sh then [(VK_SHIFT, True)] else [])"
    using i2 by (simp add: w3_def sent_keys_SendVirtualKey)
  have k4: "sent_keys w4 = sent_keys w3" by (simp add: w4_def)
  show ?thesis unfolding r using False k1 k2 k3 k4
    by (simp add: expected_char_keys_def Let_def sh_def)
qed

lemma quiet_SendTextString_char: "quiet_since w (snd (SendTextString_char env c w))"
proof (cases "CharToVirtualKey env c = 0")
  case True
  then show ?thesis by (simp add: SendTextString_char_skip quiet_since_say)
next
  case False
  define sh where "sh = (HIBYTE (VkKeyScanA env c) AND 1 \<noteq> 0)"
  define w1 where "w1 = (if sh then snd (SendVirtualKey env VK_SHIFT False w) else w)"
  define w2 where "w2 = snd (SendKeyPress env (CharToVirtualKey env c) w1)"
  define w3 where "w3 = (if sh then snd (SendVirtualKey env VK_SHIFT True w2) else w2)"
  define w4 where "w4 = (if 0 < s_keyDelayMs w3 then sleep_for (s_keyDelayMs w3) w3 else w3)"
  have r: "snd (SendTextString_char env c w) = w4"
    using False by (simp add: SendTextString_char_unfold Let_def w4_def w3_def w2_def w1_def sh_def)
  have "quiet_since w w1" by (simp add: w1_def quiet_SendVirtualKey quiet_since_refl)
  moreover have "quiet_since w1 w2" by (simp add: w2_def quiet_SendKeyPress)
  moreover have "quiet_since w2 w3" by (simp add: w3_def quiet_SendVirtualKey quiet_since_refl)
  moreover have "quiet_since w3 w4" by (simp add: w4_def quiet_since_sleep quiet_since_refl)
  ultimately show ?thesis unfolding r using quiet_since_trans by metis
qed

subsection \<open>The loop\<close>

lemma SendTextString_loop_step:
  "SendTextString_loop env (c # cs) (s, w) =
     SendTextString_loop env cs
       (s \<and> fst (SendTextString_char env c w) \<noteq> Some False, snd (SendTextString_char env c w))"
proof (cases "SendTextString_char env c w")
  case (Pair r w')
  then show ?thesis by (cases r) auto
qed

lemma effects_only_loop: "effects_only w (snd (SendTextString_loop env cs (s, w)))"
proof (induction cs arbitrary: s w)
  case Nil
  show ?case by (simp add: effects_only_refl)
next
  case (Cons c cs)
  show ?case unfolding SendTextString_loop_step
    using effects_only_trans [OF effects_only_SendTextString_char Cons.IH] .
qed

lemma quiet_loop: "quiet_since w (snd (SendTextString_loop env cs (s, w)))"
proof (induction cs arbitrary: s w)
  case Nil
  show ?case by (simp add: quiet_since_refl)
next
  case (Cons c cs)
  show ?case unfolding SendTextString_loop_step
    using quiet_since_trans [OF quiet_SendTextString_char Cons.IH] .
qed

lemma sent_keys_loop:
  "InputInjector_initialized w \<Longrightarrow>
   sent_keys (snd (SendTextString_loop env cs (s, w)))
     = sent_keys w @ concat (map (expected_char_keys env) cs)"
proof (induction cs arbitrary: s w)
  case Nil
  show ?case by simp
next
  case (Cons c cs)
  have i: "InputInjector_initialized (snd (SendTextString_char env c w))"
    using Cons.prems by (simp add: initialized_SendTextString_char)
  show ?case unfolding SendTextString_loop_step
    using Cons.IH [OF i] Cons.prems by (simp add: sent_keys_SendTextString_char)
qed

lemma fst_loop:
  "fst (SendTextString_loop env cs (s, w)) = (s \<and> Some False \<notin> set (char_results env cs w))"
proof (induction cs arbitrary: s w)
  case Nil
  show ?case by simp
next
  case (Cons c cs)
  show ?case unfolding SendTextString_loop_step Cons.IH
    by (auto simp: case_prod_beta)
qed

lemma char_results_skipped:
  "map (\<lambda>r. r = None) (char_results env cs w) = map (\<lambda>c. CharToVirtualKey env c = 0) cs"
  by (induction cs arbitrary: w) (simp_all add: case_prod_beta fst_SendTextString_char_None)

lemma loop_append:
  "SendTextString_loop env (xs @ ys) acc = SendTextString_loop env ys (SendTextString_loop env xs acc)"
proof (induction xs arbitrary: acc)
  case Nil
  show ?case by simp
next
  case (Cons c cs)
  obtain s w where acc: "acc = (s, w)" by (cases acc)
  show ?case unfolding acc append_Cons SendTextString_loop_step using Cons.IH .
qed


subsection \<open>A system that accepts every input\<close>

lemma fst_SendVirtualKey:
  "InputInjector_initialized w \<Longrightarrow>
   fst (SendVirtualKey env vk up w) = SendInput_ok env (os_calls w) vk up"
  by (simp add: SendVirtualKey_def SendInputHelper_def Let_def)

lemma fst_SendKeyPress_accept:
  assumes "\<forall>tr vk up. SendInput_ok env tr vk up" and "InputInjector_initialized w"
  shows "fst (SendKeyPress env vk w)"
proof -
  define p where "p = SendVirtualKey env vk False w"
  define w2 where "w2 = (if fst p \<and> 0 < s_keyDelayMs (snd p) then sleep_for (s_keyDelayMs (snd p)) (snd p) else snd p)"
  have i1: "InputInjector_initialized (snd p)" using assms(2) by (simp add: p_def initialized_SendVirtualKey)
  have i2: "InputInjector_initialized w2" using i1 by (simp add: w2_def sleep_for_def)
  have a: "fst p" using assms by (simp add: p_def fst_SendVirtualKey)
  have b: "fst (SendVirtualKey env vk True w2)" using assms(1) i2 by (simp add: fst_SendVirtualKey)
  have "fst (SendKeyPress env vk w) = (fst p \<and> fst (SendVirtualKey env vk True w2))"
    by (simp add: SendKeyPress_unfold Let_def p_def w2_def)
  with a b show ?thesis by simp
qed

lemma fst_SendTextString_char_accept:
  assumes "\<forall>tr vk up. SendInput_ok env tr vk up" and "InputInjector_initialized w"
  shows "fst (SendTextString_char env c w) \<noteq> Some False"
proof (cases "CharToVirtualKey env c = 0")
  case True
  then show ?thesis by (simp add: SendTextString_char_skip)
next
  case False
  define sh where "sh = (HIBYTE (VkKeyScanA env c) AND 1 \<noteq> 0)"
  define w1 where "w1 = (if sh then snd (SendVirtualKey env VK_SHIFT False w) else w)"
  have i1: "InputInjector_initialized w1"
    using assms(2) by (simp add: w1_def initialized_SendVirtualKey)
  have "fst (SendTextString_char env c w) = Some (fst (SendKeyPress env (CharToVirtualKey env c) w1))"
    using False by (simp add: SendTextString_char_unfold Let_def w1_def sh_def)
  then show ?thesis using fst_SendKeyPress_accept [OF assms(1) i1] by simp
qed

lemma char_results_accept:
  assumes "\<forall>tr vk up. SendInput_ok env tr vk up"
  shows "InputInjector_initialized w \<Longrightarrow> Some False \<notin> set (char_results env cs w)"
proof (induction cs arbitrary: w)
  case Nil
  show ?case by simp
next
  case (Cons c cs)
  have i: "InputInjector_initialized (snd (SendTextString_char env c w))"
    using Cons.prems by (simp add: initialized_SendTextString_char)
  show ?case using Cons.IH [OF i] fst_SendTextString_char_accept [OF assms Cons.prems, of c]
    by (auto simp: case_prod_beta)
qed

subsection \<open>SendTextString\<close>

lemma SendTextString_initialized:
  "InputInjector_initialized w \<Longrightarrow>
   SendTextString env text w = SendTextString_loop env text (True, say (SendingText text) w)"
  by (simp add: SendTextString_def)

lemma sent_keys_SendTextString:
  "InputInjector_initialized w \<Longrightarrow>
   sent_keys (snd (SendTextString env text w)) = sent_keys w @ concat (map (expected_char_keys env) text)"
  by (simp add: SendTextString_initialized sent_keys_loop)

lemma effects_only_SendTextString: "effects_only w (snd (SendTextString env text w))"
proof (cases "InputInjector_initialized w")
  case True
  show ?thesis unfolding SendTextString_initialized [OF True]
    using effects_only_trans [OF effects_only_say effects_only_loop] .
next
  case False
  then show ?thesis by (simp add: SendTextString_def effects_only_say)
qed

lemma quiet_SendTextString: "quiet_since w (snd (SendTextString env text w))"
proof (cases "InputInjector_initialized w")
  case True
  have "quiet_since w (say (SendingText text) w)" by (simp add: quiet_since_say)
  from quiet_since_trans [OF this quiet_loop]
  show ?thesis unfolding SendTextString_initialized [OF True] .
next
  case False
  then show ?thesis by (simp add: SendTextString_def quiet_since_say)
qed

subsection \<open>SendTextString against the description of a run\<close>

lemma SendVirtualKey_run:
  assumes "InputInjector_initialized w"
  shows "fst (SendVirtualKey env vk up w) = SendInput_ok env (os_calls w) vk up"
    and "os_calls (snd (SendVirtualKey env vk up w))
           = os_calls w @ [SendInput vk up (SendInput_ok env (os_calls w) vk up)]"
  using assms by (simp_all add: SendVirtualKey_def SendInputHelper_def Let_def say_def)

lemma delay_SendVirtualKey:
  "s_keyDelayMs (snd (SendVirtualKey env vk up w)) = s_keyDelayMs w"
  by (rule effects_only_fields(2) [OF effects_only_SendVirtualKey])

lemma SendKeyPress_run:
  assumes "InputInjector_initialized w"
  shows "fst (SendKeyPress env vk w)
           = (SendInput_ok env (os_calls w) vk False \<and>
              SendInput_ok env
                (os_calls w @ SendInput vk False (SendInput_ok env (os_calls w) vk False)
                   # (if SendInput_ok env (os_calls w) vk False \<and> 0 < s_keyDelayMs w
                      then [Sleep (s_keyDelayMs w)] else [])) vk True)"
    and "os_calls (snd (SendKeyPress env vk w))
           = os_calls w @ SendInput vk False (SendInput_ok env (os_calls w) vk False)
               # (if SendInput_ok env (os_calls w) vk False \<and> 0 < s_keyDelayMs w
                  then [Sleep (s_keyDelayMs w)] else [])
               @ [SendInput vk True
                    (SendInput_ok env
                       (os_calls w @ SendInput vk False (SendInput_ok env (os_calls w) vk False)
                          # (if SendInput_ok env (os_calls w) vk False \<and> 0 < s_keyDelayMs w
                             then [Sleep (s_keyDelayMs w)] else [])) vk True)]"
proof -
  define p where "p = SendVirtualKey env vk False w"
  define w2 where "w2 = (if fst p \<and> 0 < s_keyDelayMs (snd p) then sleep_for (s_keyDelayMs (snd p)) (snd p) else snd p)"
  have i1: "InputInjector_initialized (snd p)" using assms by (simp add: p_def initialized_SendVirtualKey)
  have i2: "InputInjector_initialized w2" using i1 by (simp add: w2_def sleep_for_def)
  have f1: "fst p = SendInput_ok env (os_calls w) vk False"
    using assms by (simp add: p_def SendVirtualKey_run)
  have d1: "s_keyDelayMs (snd p) = s_keyDelayMs w" by (simp add: p_def delay_SendVirtualKey)
  have o1: "os_calls (snd p) = os_calls w @ [SendInput vk False (SendInput_ok env (os_calls w) vk False)]"
    using assms by (simp add: p_def SendVirtualKey_run)
  have o2: "os_calls w2 = os_calls w @ SendInput vk False (SendInput_ok env (os_calls w) vk False)
               # (if SendInput_ok env (os_calls w) vk False \<and> 0 < s_keyDelayMs w
                  then [Sleep (s_keyDelayMs w)] else [])"
    by (simp add: w2_def f1 d1 o1 sleep_for_def)
  have r: "SendKeyPress env vk w = (fst p \<and> fst (SendVirtualKey env vk True w2), snd (SendVirtualKey env vk True w2))"
    by (simp add: SendKeyPress_unfold Let_def p_def w2_def)
  show "fst (SendKeyPress env vk w)
           = (SendInput_ok env (os_calls w) vk False \<and>
              SendInput_ok env
                (os_calls w @ SendInput vk False (SendInput_ok env (os_calls w) vk False)
                   # (if SendInput_ok env (os_calls w) vk False \<and> 0 < s_keyDelayMs w
                      then [Sleep (s_keyDelayMs w)] else [])) vk True)"
    unfolding r using f1 SendVirtualKey_run(1) [OF i2, of env vk True] o2 by simp
  show "os_calls (snd (SendKeyPress env vk w))
           = os_calls w @ SendInput vk False (SendInput_ok env (os_calls w) vk False)
               # (if SendInput_ok env (os_calls w) vk False \<and> 0 < s_keyDelayMs w
                  then [Sleep (s_keyDelayMs w)] else [])
               @ [SendInput vk True
                    (SendInput_ok env
                       (os_calls w @ SendInput vk False (SendInput_ok env (os_calls w) vk False)
                          # (if SendInput_ok env (os_calls w) vk False \<and> 0 < s_keyDelayMs w
                             then [Sleep (s_keyDelayMs w)] else [])) vk True)]"
    unfolding r using SendVirtualKey_run(2) [OF i2, of env vk True] o2 by simp
qed

lemma delay_SendKeyPress: "s_keyDelayMs (snd (SendKeyPress env vk w)) = s_keyDelayMs w"
  by (rule effects_only_fields(2) [OF effects_only_SendKeyPress])

lemma initialized_SendKeyPress:
  "InputInjector_initialized (snd (SendKeyPress env vk w)) = InputInjector_initialized w"
  by (rule effects_only_fields(1) [OF effects_only_SendKeyPress])

lemma SendTextString_char_run:
  assumes "InputInjector_initialized w"
  shows "fst (SendTextString_char env c w)
           = fst (expected_char_run env (s_keyDelayMs w) (os_calls w) c) \<and>
         os_calls (snd (SendTextString_char env c w))
           = os_calls w @ snd (expected_char_run env (s_keyDelayMs w) (os_calls w) c)"
proof (cases "CharToVirtualKey env c = 0")
  case True
  then show ?thesis
    by (simp add: SendTextString_char_skip expected_char_run_def say_def)
next
  case False
  define vk where "vk = CharToVirtualKey env c"
  define sh where "sh = (HIBYTE (VkKeyScanA env c) AND 1 \<noteq> 0)"
  define w1 where "w1 = (if sh then snd (SendVirtualKey env VK_SHIFT False w) else w)"
  define p where "p = SendKeyPress env vk w1"
  define w3 where "w3 = (if sh then snd (SendVirtualKey env VK_SHIFT True (snd p)) else snd p)"
  define w4 where "w4 = (if 0 < s_keyDelayMs w3 then sleep_for (s_keyDelayMs w3) w3 else w3)"
  have r: "SendTextString_char env c w = (Some (fst p), w4)"
    using False
    by (simp add: SendTextString_char_unfold Let_def w4_def w3_def p_def w1_def sh_def vk_def)
  have i1: "InputInjector_initialized w1"
    using assms by (simp add: w1_def initialized_SendVirtualKey)
  have i2: "InputInjector_initialized (snd p)"
    using i1 by (simp add: p_def initialized_SendKeyPress)
  have d1: "s_keyDelayMs w1 = s_keyDelayMs w" by (simp add: w1_def delay_SendVirtualKey)
  have d2: "s_keyDelayMs (snd p) = s_keyDelayMs w" by (simp add: p_def delay_SendKeyPress d1)
  have d3: "s_keyDelayMs w3 = s_keyDelayMs w" by (simp add: w3_def delay_SendVirtualKey d2)
  define pre where "pre = (if sh then [SendInput VK_SHIFT False (SendInput_ok env (os_calls w) VK_SHIFT False)] else [])"
  have o1: "os_calls w1 = os_calls w @ pre"
    using assms by (simp add: w1_def pre_def SendVirtualKey_run)
  note kp = SendKeyPress_run [OF i1, of env vk, folded p_def, unfolded o1 d1]
  have o3: "os_calls w3 = os_calls (snd p) @
      (if sh then [SendInput VK_SHIFT True (SendInput_ok env (os_calls (snd p)) VK_SHIFT True)] else [])"
    using i2 by (simp add: w3_def SendVirtualKey_run)
  have o4: "os_calls w4 = os_calls w3 @ (if 0 < s_keyDelayMs w then [Sleep (s_keyDelayMs w)] else [])"
    by (simp add: w4_def d3 sleep_for_def)
  show ?thesis
  proof (cases sh)
    case True
    then have "HIBYTE (VkKeyScanA env c) AND 1 \<noteq> 0" by (simp add: sh_def)
    then show ?thesis
      unfolding r using False True
      by (simp add: expected_char_run_def Let_def vk_def [symmetric] o4 o3 kp pre_def)
  next
    case nsh: False
    then have "HIBYTE (VkKeyScanA env c) AND 1 = 0" by (simp add: sh_def)
    then show ?thesis
      unfolding r using False nsh
      by (simp add: expected_char_run_def Let_def vk_def [symmetric] o4 o3 kp pre_def)
  qed
qed


lemma delay_SendTextString_char:
  "s_keyDelayMs (snd (SendTextString_char env c w)) = s_keyDelayMs w"
  by (rule effects_only_fields(2) [OF effects_only_SendTextString_char])

lemma SendTextString_loop_run:
  "InputInjector_initialized w \<Longrightarrow>
   fst (SendTextString_loop env cs (s, w))
     = (s \<and> fst (expected_text_run env (s_keyDelayMs w) (os_calls w) cs)) \<and>
   os_calls (snd (SendTextString_loop env cs (s, w)))
     = os_calls w @ snd (expected_text_run env (s_keyDelayMs w) (os_calls w) cs)"
proof (induction cs arbitrary: s w)
  case Nil
  show ?case by simp
next
  case (Cons c cs)
  define w' where "w' = snd (SendTextString_char env c w)"
  have i: "InputInjector_initialized w'"
    using Cons.prems by (simp add: w'_def initialized_SendTextString_char)
  have d: "s_keyDelayMs w' = s_keyDelayMs w" by (simp add: w'_def delay_SendTextString_char)
  from SendTextString_char_run [OF Cons.prems, of env c]
  have c: "fst (SendTextString_char env c w)
             = fst (expected_char_run env (s_keyDelayMs w) (os_calls w) c)"
    "os_calls w' = os_calls w @ snd (expected_char_run env (s_keyDelayMs w) (os_calls w) c)"
    by (simp_all add: w'_def)
  from Cons.IH [OF i, of "s \<and> fst (SendTextString_char env c w) \<noteq> Some False"]
  show ?case
    unfolding SendTextString_loop_step w'_def [symmetric]
    by (auto simp add: c d case_prod_beta)
qed

lemma SendTextString_run:
  assumes "InputInjector_initialized w"
  shows "fst (SendTextString env text w)
           = fst (expected_text_run env (s_keyDelayMs w) (os_calls w) text) \<and>
         os_calls (snd (SendTextString env text w))
           = os_calls w @ snd (expected_text_run env (s_keyDelayMs w) (os_calls w) text)"
proof -
  have i: "InputInjector_initialized (say (SendingText text) w)" using assms by simp
  from SendTextString_loop_run [OF i, of env "text" True]
  show ?thesis by (simp add: SendTextString_initialized [OF assms] say_def)
qed

text \<open>
  Claim C1, as stated, fails. An injection failure does not abort the remaining
  characters: when the system rejects the first synthetic input (the key-down of \<open>a\<close>) and
  accepts the later ones, \<open>SendTextString "ab"\<close> reports failure and still sends the
  key-up of \<open>a\<close> and both events of \<open>b\<close>. Not every rejected input makes the call report
  failure: when the system rejects the shift-down and the shift-up sent for \<open>A\<close> and
  accepts the two inputs of the key itself, the call reports success. And before
  \<open>Initialize\<close> the call reports failure also for the empty text, where there is no
  character whose injection could have failed.
\<close>

theorem SendTextString_failure_does_not_abort:
  "fst (SendTextString env_reject_first ''ab'' (InputInjector_Initialize static_init)) = False \<and>
   os_calls (snd (SendTextString env_reject_first ''ab'' (InputInjector_Initialize static_init)))
     = [SendInput 0x41 False False, SendInput 0x41 True True, Sleep 10,
        SendInput 0x42 False True, Sleep 10, SendInput 0x42 True True, Sleep 10] \<and>
   fst (SendTextString env_reject_shift ''A'' (InputInjector_Initialize static_init)) = True \<and>
   os_calls (snd (SendTextString env_reject_shift ''A'' (InputInjector_Initialize static_init)))
     = [SendInput VK_SHIFT False False, SendInput 0x41 False True, Sleep 10,
        SendInput 0x41 True True, SendInput VK_SHIFT True False, Sleep 10] \<and>
   fst (SendTextString env_accept [] static_init) = False"
  by code_simp

text \<open>
  Claim C1, amended: with the injector initialised, \<open>SendTextString\<close> makes exactly the
  calls of \<open>expected_text_run\<close> and returns its result. So every character of the text is
  sent, whatever the system answered before (nothing is aborted), and the result is the
  conjunction, over the characters that have a virtual key, of the system's answers to
  the key-down and to the key-up of that character's own key: one of these rejected
  makes the call report failure, while the answers to the shift-down and shift-up sent
  around a character are dropped. The result is also the conjunction of the results the
  loop obtains from \<open>SendKeyPress\<close>, each such character having one, and the keys handed to
  \<open>SendInput\<close> are those of all the characters in order. An injector that is not
  initialised reports failure and sends nothing.
\<close>

theorem SendTextString_accumulates_without_abort:
  "(InputInjector_initialized w \<longrightarrow>
      fst (SendTextString env text w)
        = fst (expected_text_run env (s_keyDelayMs w) (os_calls w) text) \<and>
      os_calls (snd (SendTextString env text w))
        = os_calls w @ snd (expected_text_run env (s_keyDelayMs w) (os_calls w) text) \<and>
      fst (SendTextString env text w) = (Some False \<notin> set (SendTextString_results env text w)) \<and>
      map (\<lambda>r. r = None) (SendTextString_results env text w)
        = map (\<lambda>c. CharToVirtualKey env c = 0) text \<and>
      sent_keys (snd (SendTextString env text w))
        = sent_keys w @ concat (map (expected_char_keys env) text)) \<and>
   (\<not> InputInjector_initialized w \<longrightarrow>
      SendTextString env text w = (False, say ErrInjectorNotInitialized w))"
proof (cases "InputInjector_initialized w")
  case True
  from SendTextString_run [OF True, of env "text"] True show ?thesis
    by (simp add: SendTextString_initialized fst_loop SendTextString_results_def
      char_results_skipped sent_keys_loop)
next
  case False
  then show ?thesis by (simp add: SendTextString_def)
qed

theorem SendTextString_accumulates_without_abort_witness:
  "InputInjector_initialized (InputInjector_Initialize static_init) \<and>
   fst (SendTextString env_reject_first ''ab'' (InputInjector_Initialize static_init))
     = fst (expected_text_run env_reject_first 10 [] ''ab'') \<and>
   fst (expected_text_run env_reject_first 10 [] ''ab'') = False \<and>
   os_calls (snd (SendTextString env_reject_first ''ab'' (InputInjector_Initialize static_init)))
     = snd (expected_text_run env_reject_first 10 [] ''ab'') \<and>
   fst (SendTextString env_reject_first ''ab'' (InputInjector_Initialize static_init))
     = (Some False \<notin> set (SendTextString_results env_reject_first ''ab'' (InputInjector_Initialize static_init))) \<and>
   map (\<lambda>r. r = None) (SendTextString_results env_reject_first ''ab'' (InputInjector_Initialize static_init))
     = map (\<lambda>c. CharToVirtualKey env_reject_first c = 0) ''ab'' \<and>
   sent_keys (snd (SendTextString env_reject_first ''ab'' (InputInjector_Initialize static_init)))
     = sent_keys (InputInjector_Initialize static_init)
       @ concat (map (expected_char_keys env_reject_first) ''ab'') \<and>
   \<not> InputInjector_initialized static_init \<and>
   SendTextString env_reject_first ''ab'' static_init
     = (False, say ErrInjectorNotInitialized static_init)"
proof -
  have h: "InputInjector_initialized (InputInjector_Initialize static_init)"
    by (simp add: InputInjector_Initialize_def say_def)
  have n: "\<not> InputInjector_initialized static_init"
    by (simp add: static_init_def)
  have d: "s_keyDelayMs (InputInjector_Initialize static_init) = 10"
    "os_calls (InputInjector_Initialize static_init) = []"
    by (simp_all add: InputInjector_Initialize_def say_def static_init_def)
  have f: "fst (expected_text_run env_reject_first 10 [] ''ab'') = False" by code_simp
  have a: "fst (SendTextString env_reject_first ''ab'' (InputInjector_Initialize static_init))
     = fst (expected_text_run env_reject_first 10 [] ''ab'')"
    "os_calls (snd (SendTextString env_reject_first ''ab'' (InputInjector_Initialize static_init)))
     = snd (expected_text_run env_reject_first 10 [] ''ab'')"
    using h SendTextString_accumulates_without_abort
        [of "InputInjector_Initialize static_init" env_reject_first "''ab''"]
    by (simp_all only: d append_Nil simp_thms)
  have b: "fst (SendTextString env_reject_first ''ab'' (InputInjector_Initialize static_init))
     = (Some False \<notin> set (SendTextString_results env_reject_first ''ab'' (InputInjector_Initialize static_init)))"
    "map (\<lambda>r. r = None) (SendTextString_results env_reject_first ''ab'' (InputInjector_Initialize static_init))
     = map (\<lambda>c. CharToVirtualKey env_reject_first c = 0) ''ab''"
    "sent_keys (snd (SendTextString env_reject_first ''ab'' (InputInjector_Initialize static_init)))
     = sent_keys (InputInjector_Initialize static_init)
       @ concat (map (expected_char_keys env_reject_first) ''ab'')"
    using h SendTextString_accumulates_without_abort
        [of "InputInjector_Initialize static_init" env_reject_first "''ab''"]
    by blast+
  have c: "SendTextString env_reject_first ''ab'' static_init
     = (False, say ErrInjectorNotInitialized static_init)"
    using n SendTextString_accumulates_without_abort [of static_init env_reject_first "''ab''"]
    by blast
  show ?thesis
    using h n f a b c by (simp only: simp_thms)
qed

text \<open>
  Claim C5: on a layout where \<open>A\<close> needs shift and \<open>b\<close>, \<open>1\<close> and the space do not,
  \<open>SendTextString "Ab1 "\<close> hands to \<open>SendInput\<close> exactly shift-down, A-down, A-up,
  shift-up, B-down, B-up, 1-down, 1-up, space-down, space-up, in this order (the second
  component is the key-up flag), shift being pressed and released around the one
  character that needs it; and the call succeeds when the system accepts every input.
  The caps-lock state is not consulted by the injector.
\<close>

theorem SendTextString_Ab1_space:
  assumes "InputInjector_initialized w"
    and "HIBYTE (VkKeyScanA env CHR ''A'') AND 1 \<noteq> 0"
    and "HIBYTE (VkKeyScanA env CHR ''b'') AND 1 = 0"
    and "HIBYTE (VkKeyScanA env CHR ''1'') AND 1 = 0"
    and "HIBYTE (VkKeyScanA env CHR '' '') AND 1 = 0"
  shows "sent_keys (snd (SendTextString env ''Ab1 '' w))
           = sent_keys w @
             [(VK_SHIFT, False), (0x41, False), (0x41, True), (VK_SHIFT, True),
              (0x42, False), (0x42, True),
              (0x31, False), (0x31, True),
              (VK_SPACE, False), (VK_SPACE, True)] \<and>
         ((\<forall>tr vk up. SendInput_ok env tr vk up) \<longrightarrow> fst (SendTextString env ''Ab1 '' w))"
proof -
  have "expected_char_keys env CHR ''A'' = [(VK_SHIFT, False), (0x41, False), (0x41, True), (VK_SHIFT, True)]"
    using assms(2) by (simp add: expected_char_keys_def CharToVirtualKey_def)
  moreover have "expected_char_keys env CHR ''b'' = [(0x42, False), (0x42, True)]"
    using assms(3) by (simp add: expected_char_keys_def CharToVirtualKey_def)
  moreover have "expected_char_keys env CHR ''1'' = [(0x31, False), (0x31, True)]"
    using assms(4) by (simp add: expected_char_keys_def CharToVirtualKey_def)
  moreover have "expected_char_keys env CHR '' '' = [(VK_SPACE, False), (VK_SPACE, True)]"
    using assms(5) by (simp add: expected_char_keys_def CharToVirtualKey_def)
  ultimately have k: "sent_keys (snd (SendTextString env ''Ab1 '' w))
           = sent_keys w @
             [(VK_SHIFT, False), (0x41, False), (0x41, True), (VK_SHIFT, True),
              (0x42, False), (0x42, True),
              (0x31, False), (0x31, True),
              (VK_SPACE, False), (VK_SPACE, True)]"
    using assms(1) by (simp add: sent_keys_SendTextString)
  have i: "InputInjector_initialized (say (SendingText ''Ab1 '') w)"
    using assms(1) by simp
  have "fst (SendTextString env ''Ab1 '' w)" if a: "\<forall>tr vk up. SendInput_ok env tr vk up"
    using char_results_accept [OF a i]
    by (simp only: SendTextString_initialized [OF assms(1)] fst_loop simp_thms)
  with k show ?thesis by blast
qed

theorem SendTextString_Ab1_space_witness:
  "InputInjector_initialized (InputInjector_Initialize static_init) \<and>
   HIBYTE (VkKeyScanA env_accept CHR ''A'') AND 1 \<noteq> 0 \<and>
   HIBYTE (VkKeyScanA env_accept CHR ''b'') AND 1 = 0 \<and>
   HIBYTE (VkKeyScanA env_accept CHR ''1'') AND 1 = 0 \<and>
   HIBYTE (VkKeyScanA env_accept CHR '' '') AND 1 = 0 \<and>
   (\<forall>tr vk up. SendInput_ok env_accept tr vk up) \<and>
   sent_keys (snd (SendTextString env_accept ''Ab1 '' (InputInjector_Initialize static_init)))
     = [(VK_SHIFT, False), (0x41, False), (0x41, True), (VK_SHIFT, True),
        (0x42, False), (0x42, True), (0x31, False), (0x31, True),
        (VK_SPACE, False), (VK_SPACE, True)] \<and>
   fst (SendTextString env_accept ''Ab1 '' (InputInjector_Initialize static_init))"
proof -
  have h1: "InputInjector_initialized (InputInjector_Initialize static_init)"
    by (simp add: InputInjector_Initialize_def say_def)
  have h2: "HIBYTE (VkKeyScanA env_accept CHR ''A'') AND 1 \<noteq> 0"
    by (simp add: env_accept_def sample_VkKeyScanA_def HIBYTE_def)
  have h3: "HIBYTE (VkKeyScanA env_accept CHR ''b'') AND 1 = 0"
    by (simp add: env_accept_def sample_VkKeyScanA_def HIBYTE_def)
  have h4: "HIBYTE (VkKeyScanA env_accept CHR ''1'') AND 1 = 0"
    by (simp add: env_accept_def sample_VkKeyScanA_def HIBYTE_def)
  have h5: "HIBYTE (VkKeyScanA env_accept CHR '' '') AND 1 = 0"
    by (simp add: env_accept_def sample_VkKeyScanA_def HIBYTE_def)
  have h6: "\<forall>tr vk up. SendInput_ok env_accept tr vk up"
    by (simp add: env_accept_def)
  have e: "sent_keys (InputInjector_Initialize static_init) = []"
    by (simp add: InputInjector_Initialize_def static_init_def sent_keys_def say_def)
  show ?thesis
    using h1 h2 h3 h4 h5 h6 e SendTextString_Ab1_space [OF h1 h2 h3 h4 h5] by simp
qed

text \<open>
  Claim C9: in every text, a character that has a virtual key and needs shift contributes
  exactly shift-down, key-down, key-up, shift-up to the inputs handed to \<open>SendInput\<close>,
  after those of the characters before it and before those of the characters after it,
  whatever the system answers to any of them; the shift-up is sent also when the
  key-down or key-up of the character is rejected.
\<close>

theorem shift_balanced_per_character:
  assumes "InputInjector_initialized w"
    and "CharToVirtualKey env c \<noteq> 0"
    and "HIBYTE (VkKeyScanA env c) AND 1 \<noteq> 0"
  shows "sent_keys (snd (SendTextString env (pre @ c # post) w))
           = sent_keys (snd (SendTextString env pre w)) @
             [(VK_SHIFT, False), (CharToVirtualKey env c, False),
              (CharToVirtualKey env c, True), (VK_SHIFT, True)] @
             concat (map (expected_char_keys env) post)"
  using assms by (simp add: sent_keys_SendTextString expected_char_keys_def Let_def)

theorem shift_balanced_per_character_witness:
  "InputInjector_initialized (InputInjector_Initialize static_init) \<and>
   CharToVirtualKey env_reject CHR ''B'' \<noteq> 0 \<and>
   HIBYTE (VkKeyScanA env_reject CHR ''B'') AND 1 \<noteq> 0 \<and>
   fst (SendKeyPress env_reject (CharToVirtualKey env_reject CHR ''B'')
          (InputInjector_Initialize static_init)) = False \<and>
   sent_keys (snd (SendTextString env_reject (''a'' @ CHR ''B'' # ''c'') (InputInjector_Initialize static_init)))
     = sent_keys (snd (SendTextString env_reject ''a'' (InputInjector_Initialize static_init))) @
       [(VK_SHIFT, False), (CharToVirtualKey env_reject CHR ''B'', False),
        (CharToVirtualKey env_reject CHR ''B'', True), (VK_SHIFT, True)] @
       concat (map (expected_char_keys env_reject) ''c'')"
proof -
  have h1: "InputInjector_initialized (InputInjector_Initialize static_init)"
    by (simp add: InputInjector_Initialize_def say_def)
  have h2: "CharToVirtualKey env_reject CHR ''B'' \<noteq> 0"
    by (simp add: CharToVirtualKey_def)
  have h3: "HIBYTE (VkKeyScanA env_reject CHR ''B'') AND 1 \<noteq> 0"
    by (simp add: env_reject_def env_accept_def sample_VkKeyScanA_def HIBYTE_def)
  have h4: "fst (SendKeyPress env_reject (CharToVirtualKey env_reject CHR ''B'')
          (InputInjector_Initialize static_init)) = False"
    by code_simp
  show ?thesis
    using h1 h2 h3 h4 shift_balanced_per_character [OF h1 h2 h3, of "''a''" "''c''"] by simp
qed

section \<open>Properties of the suggestion handlers and of key registration\<close>


subsection \<open>Overlay\<close>

lemma HideSuggestion_not_displayed: "\<not> suggestion_displayed (HideSuggestion w)"
  by (auto simp add: HideSuggestion_def suggestion_displayed_def say_def)

lemma HideSuggestion_pending:
  "s_pendingSuggestion (HideSuggestion w) = s_pendingSuggestion w"
  "s_hasPendingSuggestion (HideSuggestion w) = s_hasPendingSuggestion w"
  by (simp_all add: HideSuggestion_def say_def)

lemma quiet_HideSuggestion: "quiet_since w (HideSuggestion w)"
proof (cases "\<not> SuggestionOverlay_initialized w \<or> \<not> s_overlayWindow w")
  case True
  then show ?thesis by (simp add: HideSuggestion_def quiet_since_refl)
next
  case False
  then have "console (HideSuggestion w) = console w @ [OverlayHidden]"
    by (simp add: HideSuggestion_def say_def)
  then show ?thesis by (rule quiet_sinceI) simp_all
qed

lemma quiet_ShowSuggestion: "quiet_since w (ShowSuggestion t w)"
proof (cases "\<not> SuggestionOverlay_initialized w \<or> \<not> s_overlayWindow w")
  case True
  then show ?thesis by (simp add: ShowSuggestion_def quiet_since_refl)
next
  case False
  then have "console (ShowSuggestion t w) = console w @ [OverlayShowing t]"
    by (simp add: ShowSuggestion_def say_def)
  then show ?thesis by (rule quiet_sinceI) simp_all
qed

subsection \<open>OnRightCtrlPressed\<close>

lemma OnRightCtrlPressed_none:
  assumes "\<not> (s_hasPendingSuggestion w \<and> s_pendingSuggestion w \<noteq> [])"
  shows "OnRightCtrlPressed env pt rt pp rp w
           = w\<lparr>console := console w @ [RightCtrlBanner, NoPendingSuggestion, RightCtrlCompleted]\<rparr>"
  using assms by (auto simp add: OnRightCtrlPressed_def Let_def say_def)

lemma OnRightCtrlPressed_some:
  assumes "s_hasPendingSuggestion w" and "s_pendingSuggestion w \<noteq> []"
  shows "OnRightCtrlPressed env pt rt pp rp w =
     (let p = SendTextString env (s_pendingSuggestion w) (say (AcceptingSuggestion (s_pendingSuggestion w)) (say RightCtrlBanner w));
          w4 = (if fst p then say (InjectedText (length (s_pendingSuggestion (snd p)))) (snd p)
                else say ErrFailedToInject (snd p))
      in say RightCtrlCompleted
           (HideSuggestion (w4\<lparr>s_pendingSuggestion := [], s_hasPendingSuggestion := False\<rparr>)))"
  using assms by (simp add: OnRightCtrlPressed_def Let_def case_prod_beta say_def)

text \<open>
  Claim C7: when no suggestion is pending (the flag is off, or the text is empty), the
  accept handler \<open>OnRightCtrlPressed\<close> only writes its three console lines: no input is
  sent and no system call made, the pending suggestion and its flag are unchanged, as is
  every other part of the state; the handler returns normally.
\<close>

theorem accept_without_pending_is_noop:
  assumes "\<not> (s_hasPendingSuggestion w \<and> s_pendingSuggestion w \<noteq> [])"
  shows "OnRightCtrlPressed env pt rt pp rp w
           = w\<lparr>console := console w @ [RightCtrlBanner, NoPendingSuggestion, RightCtrlCompleted]\<rparr> \<and>
         os_calls (OnRightCtrlPressed env pt rt pp rp w) = os_calls w \<and>
         s_pendingSuggestion (OnRightCtrlPressed env pt rt pp rp w) = s_pendingSuggestion w \<and>
         s_hasPendingSuggestion (OnRightCtrlPressed env pt rt pp rp w) = s_hasPendingSuggestion w"
  by (simp add: OnRightCtrlPressed_none [OF assms])

theorem accept_without_pending_is_noop_witness:
  "\<not> (s_hasPendingSuggestion started \<and> s_pendingSuggestion started \<noteq> []) \<and>
   OnRightCtrlPressed env_suggest 3 8 (1, 2) (1, 2) started
     = started\<lparr>console := console started @ [RightCtrlBanner, NoPendingSuggestion, RightCtrlCompleted]\<rparr> \<and>
   os_calls (OnRightCtrlPressed env_suggest 3 8 (1, 2) (1, 2) started) = os_calls started \<and>
   s_pendingSuggestion (OnRightCtrlPressed env_suggest 3 8 (1, 2) (1, 2) started) = s_pendingSuggestion started \<and>
   s_hasPendingSuggestion (OnRightCtrlPressed env_suggest 3 8 (1, 2) (1, 2) started) = s_hasPendingSuggestion started"
proof -
  have h: "\<not> (s_hasPendingSuggestion started \<and> s_pendingSuggestion started \<noteq> [])"
    by code_simp
  show ?thesis
    using h accept_without_pending_is_noop [OF h, of env_suggest 3 8 "(1, 2)" "(1, 2)"] by simp
qed

text \<open>
  Claim C10: when the accept handler runs with a pending suggestion, then after it the
  pending text is empty, the flag is off and no suggestion is on display, whatever the
  system answered to the injection: a failed injection consumes the suggestion as well.
\<close>

theorem accept_consumes_suggestion:
  assumes "s_hasPendingSuggestion w" and "s_pendingSuggestion w \<noteq> []"
  shows "s_pendingSuggestion (OnRightCtrlPressed env pt rt pp rp w) = [] \<and>
         \<not> s_hasPendingSuggestion (OnRightCtrlPressed env pt rt pp rp w) \<and>
         \<not> suggestion_displayed (OnRightCtrlPressed env pt rt pp rp w)"
proof -
  define p where "p = SendTextString env (s_pendingSuggestion w) (say (AcceptingSuggestion (s_pendingSuggestion w)) (say RightCtrlBanner w))"
  define w4 where "w4 = (if fst p then say (InjectedText (length (s_pendingSuggestion (snd p)))) (snd p)
                else say ErrFailedToInject (snd p))"
  define w5 where "w5 = HideSuggestion (w4\<lparr>s_pendingSuggestion := [], s_hasPendingSuggestion := False\<rparr>)"
  have r: "OnRightCtrlPressed env pt rt pp rp w = say RightCtrlCompleted w5"
    by (simp add: OnRightCtrlPressed_some [OF assms] Let_def p_def w4_def w5_def)
  have "s_pendingSuggestion w5 = []" "\<not> s_hasPendingSuggestion w5" "\<not> suggestion_displayed w5"
    by (simp_all add: w5_def HideSuggestion_pending HideSuggestion_not_displayed)
  then show ?thesis unfolding r by (simp add: say_def suggestion_displayed_def)
qed

theorem accept_consumes_suggestion_witness:
  "s_hasPendingSuggestion suggested \<and> s_pendingSuggestion suggested \<noteq> [] \<and>
   suggestion_displayed suggested \<and>
   fst (SendTextString env_suggest (s_pendingSuggestion suggested) suggested) = False \<and>
   s_pendingSuggestion (OnRightCtrlPressed env_suggest 3 8 (1, 2) (1, 2) suggested) = [] \<and>
   \<not> s_hasPendingSuggestion (OnRightCtrlPressed env_suggest 3 8 (1, 2) (1, 2) suggested) \<and>
   \<not> suggestion_displayed (OnRightCtrlPressed env_suggest 3 8 (1, 2) (1, 2) suggested)"
proof -
  have h1: "s_hasPendingSuggestion suggested" by code_simp
  have h2: "s_pendingSuggestion suggested \<noteq> []" by code_simp
  have h3: "suggestion_displayed suggested" by code_simp
  have h4: "fst (SendTextString env_suggest (s_pendingSuggestion suggested) suggested) = False"
    by code_simp
  show ?thesis
    using h1 h2 h3 h4 accept_consumes_suggestion [OF h1 h2, of env_suggest 3 8 "(1, 2)" "(1, 2)"]
    by simp
qed


subsection \<open>GetSpecialKeyIndex and AddSpecialKey\<close>

lemma GetSpecialKeyIndex_from_absent:
  "v \<notin> set ks \<Longrightarrow> GetSpecialKeyIndex_from i ks v = - 1"
  by (induction ks arbitrary: i) auto

lemma count_list_distinct_member:
  "distinct xs \<Longrightarrow> x \<in> set xs \<Longrightarrow> count_list xs x = 1"
  by (induction xs) auto

lemma GetSpecialKeyIndex_from_present:
  "v \<in> set ks \<Longrightarrow>
   \<exists>j < length ks. GetSpecialKeyIndex_from i ks v = int (i + j) \<and> ks ! j = v"
proof (induction ks arbitrary: i)
  case Nil
  then show ?case by simp
next
  case (Cons k ks)
  show ?case
  proof (cases "k = v")
    case True
    then show ?thesis by (intro exI [of _ 0]) simp
  next
    case False
    with Cons.prems have "v \<in> set ks" by simp
    from Cons.IH [OF this, of "Suc i"] obtain j where
      j: "j < length ks" "GetSpecialKeyIndex_from (Suc i) ks v = int (Suc i + j)" "ks ! j = v"
      by blast
    show ?thesis using False j by (intro exI [of _ "Suc j"]) simp
  qed
qed

lemma GetSpecialKeyIndex_nonneg: "0 \<le> GetSpecialKeyIndex v w \<longleftrightarrow> v \<in> set (s_specialKeys w)"
proof (cases "v \<in> set (s_specialKeys w)")
  case True
  from GetSpecialKeyIndex_from_present [OF this, of 0] show ?thesis
    using True by (auto simp: GetSpecialKeyIndex_def)
next
  case False
  then show ?thesis by (simp add: GetSpecialKeyIndex_def GetSpecialKeyIndex_from_absent)
qed

lemma GetSpecialKeyIndex_found:
  assumes "GetSpecialKeyIndex v w = int i"
  shows "i < length (s_specialKeys w) \<and> s_specialKeys w ! i = v"
proof -
  from assms have "0 \<le> GetSpecialKeyIndex v w" by simp
  then have "v \<in> set (s_specialKeys w)" by (simp add: GetSpecialKeyIndex_nonneg)
  from GetSpecialKeyIndex_from_present [OF this, of 0] assms show ?thesis
    by (auto simp: GetSpecialKeyIndex_def)
qed

lemma AddSpecialKey_present:
  "v \<in> set (s_specialKeys w) \<Longrightarrow> AddSpecialKey v w = w"
  by (simp add: AddSpecialKey_def GetSpecialKeyIndex_nonneg)

lemma AddSpecialKey_absent:
  "v \<notin> set (s_specialKeys w) \<Longrightarrow>
   AddSpecialKey v w = w\<lparr>s_specialKeys := s_specialKeys w @ [v],
                         s_specialKeyStates := s_specialKeyStates w @ [SpecialKeyState_new]\<rparr>"
  by (simp add: AddSpecialKey_def GetSpecialKeyIndex_nonneg)

lemma AddSpecialKey_member: "v \<in> set (s_specialKeys (AddSpecialKey v w))"
  by (cases "v \<in> set (s_specialKeys w)") (simp_all add: AddSpecialKey_present AddSpecialKey_absent)

lemma AddSpecialKey_distinct:
  "distinct (s_specialKeys w) \<Longrightarrow> distinct (s_specialKeys (AddSpecialKey u w))"
  by (cases "u \<in> set (s_specialKeys w)") (simp_all add: AddSpecialKey_present AddSpecialKey_absent)

lemma AddSpecialKey_aligned:
  "vectors_aligned w \<Longrightarrow> vectors_aligned (AddSpecialKey u w)"
  by (cases "u \<in> set (s_specialKeys w)")
     (simp_all add: AddSpecialKey_present AddSpecialKey_absent vectors_aligned_def)

lemma Initialize_invariants:
  "distinct (s_specialKeys (SpecialKeyHandler_Initialize w))"
  "vectors_aligned (SpecialKeyHandler_Initialize w)"
  by (simp_all add: SpecialKeyHandler_Initialize_def Let_def say_def vectors_aligned_def
      resize_states_def)

lemma static_init_invariants:
  "distinct (s_specialKeys static_init)" "vectors_aligned static_init"
  by (simp_all add: static_init_def vectors_aligned_def)

text \<open>
  Claim C8: in a state where the monitored keys are distinct and the two vectors have the
  same length (as \<open>Initialize\<close> leaves them and \<open>AddSpecialKey\<close> keeps them), adding a
  key twice is adding it once, adding a key that is already monitored changes nothing,
  and after the two calls the key occurs exactly once, with one state per key.
\<close>

theorem AddSpecialKey_idempotent:
  assumes "distinct (s_specialKeys w)" and "vectors_aligned w"
  shows "AddSpecialKey v (AddSpecialKey v w) = AddSpecialKey v w \<and>
         (0 \<le> GetSpecialKeyIndex v w \<longrightarrow> AddSpecialKey v w = w) \<and>
         count_list (s_specialKeys (AddSpecialKey v (AddSpecialKey v w))) v = 1 \<and>
         length (s_specialKeyStates (AddSpecialKey v (AddSpecialKey v w)))
           = length (s_specialKeys (AddSpecialKey v (AddSpecialKey v w)))"
proof -
  have a: "AddSpecialKey v (AddSpecialKey v w) = AddSpecialKey v w"
    by (rule AddSpecialKey_present) (rule AddSpecialKey_member)
  have b: "0 \<le> GetSpecialKeyIndex v w \<longrightarrow> AddSpecialKey v w = w"
    by (simp add: GetSpecialKeyIndex_nonneg AddSpecialKey_present)
  have "distinct (s_specialKeys (AddSpecialKey v w))"
    using assms(1) by (rule AddSpecialKey_distinct)
  then have c: "count_list (s_specialKeys (AddSpecialKey v w)) v = 1"
    using AddSpecialKey_member [of v w] by (simp add: count_list_distinct_member)
  have d: "length (s_specialKeyStates (AddSpecialKey v w)) = length (s_specialKeys (AddSpecialKey v w))"
    using AddSpecialKey_aligned [OF assms(2), of v] by (simp add: vectors_aligned_def)
  show ?thesis using a b c d by simp
qed

theorem AddSpecialKey_idempotent_witness:
  "distinct (s_specialKeys started) \<and> vectors_aligned started \<and>
   AddSpecialKey 0x70 (AddSpecialKey 0x70 started) = AddSpecialKey 0x70 started \<and>
   0 \<le> GetSpecialKeyIndex VK_SHIFT started \<and> AddSpecialKey VK_SHIFT started = started \<and>
   count_list (s_specialKeys (AddSpecialKey 0x70 (AddSpecialKey 0x70 started))) 0x70 = 1 \<and>
   s_specialKeys (AddSpecialKey 0x70 (AddSpecialKey 0x70 started))
     = [VK_CONTROL, VK_SHIFT, VK_MENU, 0x70] \<and>
   length (s_specialKeyStates (AddSpecialKey 0x70 (AddSpecialKey 0x70 started))) = 4"
proof -
  have h1: "distinct (s_specialKeys started)" by code_simp
  have h2: "vectors_aligned started" by code_simp
  have h3: "0 \<le> GetSpecialKeyIndex VK_SHIFT started" by code_simp
  have h4: "s_specialKeys (AddSpecialKey 0x70 (AddSpecialKey 0x70 started))
     = [VK_CONTROL, VK_SHIFT, VK_MENU, 0x70]" by code_simp
  from AddSpecialKey_idempotent [OF h1 h2, where v = VK_SHIFT] h3
  have s: "AddSpecialKey VK_SHIFT started = started" by blast
  show ?thesis
    using h1 h2 h3 h4 s AddSpecialKey_idempotent [OF h1 h2, where v = "0x70"] by auto
qed

section \<open>Properties of the special-key state machine\<close>


subsection \<open>The handlers write no gesture line\<close>

lemma quiet_OnRightCtrlPressed: "quiet_since w (OnRightCtrlPressed env pt rt pp rp w)"
proof (cases "s_hasPendingSuggestion w \<and> s_pendingSuggestion w \<noteq> []")
  case False
  have "console (OnRightCtrlPressed env pt rt pp rp w)
          = console w @ [RightCtrlBanner, NoPendingSuggestion, RightCtrlCompleted]"
    by (simp add: OnRightCtrlPressed_none [OF False])
  then show ?thesis by (rule quiet_sinceI) simp_all
next
  case True
  define w1 where "w1 = say (AcceptingSuggestion (s_pendingSuggestion w)) (say RightCtrlBanner w)"
  define p where "p = SendTextString env (s_pendingSuggestion w) w1"
  define w4 where "w4 = (if fst p then say (InjectedText (length (s_pendingSuggestion (snd p)))) (snd p)
                else say ErrFailedToInject (snd p))"
  define w4' where "w4' = w4\<lparr>s_pendingSuggestion := [], s_hasPendingSuggestion := False\<rparr>"
  define w5 where "w5 = HideSuggestion w4'"
  have r: "OnRightCtrlPressed env pt rt pp rp w = say RightCtrlCompleted w5"
    using True by (simp add: OnRightCtrlPressed_some Let_def p_def w1_def w4_def w4'_def w5_def)
  have "quiet_since w (say RightCtrlBanner w)" by (simp add: quiet_since_say)
  moreover have "quiet_since (say RightCtrlBanner w) w1" by (simp add: w1_def quiet_since_say)
  moreover have "quiet_since w1 (snd p)" by (simp add: p_def quiet_SendTextString)
  moreover have "quiet_since (snd p) w4" by (simp add: w4_def quiet_since_say)
  moreover have "quiet_since w4 w4'" by (rule quiet_since_same) (simp add: w4'_def)
  moreover have "quiet_since w4' w5" by (simp add: w5_def quiet_HideSuggestion)
  moreover have "quiet_since w5 (say RightCtrlCompleted w5)" by (simp add: quiet_since_say)
  ultimately show ?thesis unfolding r using quiet_since_trans by metis
qed

lemma quiet_OnLeftCtrlPressed: "quiet_since w (OnLeftCtrlPressed env pt rt pp rp w)"
proof -
  define w1 where "w1 = say GeneratingCompletion w"
  define result where "result = system_exit env (os_calls w1)"
  define w2 where "w2 = w1\<lparr>os_calls := os_calls w1 @ [System ''python process_input.py'' result]\<rparr>"
  define w3 where "w3 =
            (if result = 0 then
               (case read_python_output env (os_calls w2) of
                  FirstLine outputLine \<Rightarrow>
                    (if outputLine \<noteq> [] then
                       say (ReadyCompletion outputLine)
                         (ShowSuggestion outputLine
                            (w2\<lparr>s_pendingSuggestion := outputLine, s_hasPendingSuggestion := True\<rparr>))
                     else (say NoCompletionAvailable w2)\<lparr>s_hasPendingSuggestion := False\<rparr>)
                | CannotRead \<Rightarrow> (say ErrCouldNotReadPythonOutput w2)\<lparr>s_hasPendingSuggestion := False\<rparr>
                | CannotOpen \<Rightarrow> (say ErrCouldNotOpenPythonOutput w2)\<lparr>s_hasPendingSuggestion := False\<rparr>)
             else (say (ErrPythonFailed result) w2)\<lparr>s_hasPendingSuggestion := False\<rparr>)"
  have r: "OnLeftCtrlPressed env pt rt pp rp w = say GenerationCompleted w3"
    by (simp only: OnLeftCtrlPressed_def Let_def w1_def result_def w2_def w3_def)
  have q1: "quiet_since w w1" by (simp add: w1_def quiet_since_say)
  have q2: "quiet_since w1 w2" by (rule quiet_since_same) (simp add: w2_def)
  have flag: "quiet_since w2 ((say m w2)\<lparr>s_hasPendingSuggestion := False\<rparr>)"
    if "\<not> gesture_fired_msg m" "\<not> gesture_suppressed_msg m" for m
  proof -
    have "console ((say m w2)\<lparr>s_hasPendingSuggestion := False\<rparr>) = console w2 @ [m]"
      by (simp add: say_def)
    then show ?thesis by (rule quiet_sinceI) (use that in simp_all)
  qed
  have shown: "quiet_since w2 (say (ReadyCompletion l)
                         (ShowSuggestion l
                            (w2\<lparr>s_pendingSuggestion := l, s_hasPendingSuggestion := True\<rparr>)))" for l
  proof -
    define u where "u = w2\<lparr>s_pendingSuggestion := l, s_hasPendingSuggestion := True\<rparr>"
    have "quiet_since w2 u" by (rule quiet_since_same) (simp add: u_def)
    moreover have "quiet_since u (ShowSuggestion l u)" by (rule quiet_ShowSuggestion)
    moreover have "quiet_since (ShowSuggestion l u) (say (ReadyCompletion l) (ShowSuggestion l u))"
      by (simp add: quiet_since_say)
    ultimately show ?thesis unfolding u_def using quiet_since_trans by metis
  qed
  have q3: "quiet_since w2 w3"
    unfolding w3_def by (simp add: flag shown split: python_output.split)
  have q4: "quiet_since w3 (say GenerationCompleted w3)" by (simp add: quiet_since_say)
  show ?thesis unfolding r using q1 q2 q3 q4 quiet_since_trans by metis
qed

lemma quiet_OnSpecialKeyPressed: "quiet_since w (OnSpecialKeyPressed v pt rt pp rp w)"
  by (simp add: OnSpecialKeyPressed_def OnShiftPressed_def OnAltPressed_def quiet_since_say)


subsection \<open>Release of a monitored key\<close>

lemma ProcessSpecialKeyEvent_release:
  assumes "GetSpecialKeyIndex v w = int i"
  shows "ProcessSpecialKeyEvent env v fl True ts pos w =
     (let keyState = s_specialKeyStates w ! i;
          w1 =
            (if isPressed keyState \<and> \<not> hadInterveningKeys keyState then
               (if v = VK_CONTROL then
                  (if fl AND RI_KEY_E0 \<noteq> 0 then
                     OnRightCtrlPressed env (pressTimestamp keyState) ts
                       (pressPosition keyState) pos (say RightCtrlPressedAlone w)
                   else
                     OnLeftCtrlPressed env (pressTimestamp keyState) ts
                       (pressPosition keyState) pos (say LeftCtrlTrigger w))
                else
                  OnSpecialKeyPressed v (pressTimestamp keyState) ts
                    (pressPosition keyState) pos (say (PressedAlone (GetKeyName v)) w))
             else if isPressed keyState \<and> hadInterveningKeys keyState then
               (if v = VK_CONTROL then
                  say (PartOfCombination
                         (if fl AND RI_KEY_E0 \<noteq> 0 then ''Right Ctrl'' else ''Left Ctrl'')) w
                else say (PartOfCombination (GetKeyName v)) w)
             else w)
      in (True, w1\<lparr>s_specialKeyStates := (s_specialKeyStates w1)
             [i := (s_specialKeyStates w1 ! i)\<lparr>isPressed := False, hadInterveningKeys := False\<rparr>]\<rparr>))"
  using assms by (simp add: ProcessSpecialKeyEvent_def Let_def)

lemma release_fired_console:
  assumes "GetSpecialKeyIndex v w = int i" and "held w i" and "\<not> intervened w i"
  shows "\<exists>m out. console (snd (ProcessSpecialKeyEvent env v fl True ts pos w)) = console w @ m # out
           \<and> gesture_fired_msg m \<and> \<not> gesture_suppressed_msg m
           \<and> \<not> list_ex gesture_suppressed_msg out"
proof -
  define k where "k = s_specialKeyStates w ! i"
  define m where "m = (if v = VK_CONTROL then (if fl AND RI_KEY_E0 \<noteq> 0 then RightCtrlPressedAlone else LeftCtrlTrigger)
                       else PressedAlone (GetKeyName v))"
  define w1 where "w1 = (if v = VK_CONTROL then
                  (if fl AND RI_KEY_E0 \<noteq> 0 then
                     OnRightCtrlPressed env (pressTimestamp k) ts (pressPosition k) pos (say m w)
                   else
                     OnLeftCtrlPressed env (pressTimestamp k) ts (pressPosition k) pos (say m w))
                else
                  OnSpecialKeyPressed v (pressTimestamp k) ts (pressPosition k) pos (say m w))"
  have pk: "isPressed k" "\<not> hadInterveningKeys k"
    using assms(2,3) by (simp_all add: k_def held_def intervened_def)
  have c: "console (snd (ProcessSpecialKeyEvent env v fl True ts pos w)) = console w1"
    using pk by (simp add: ProcessSpecialKeyEvent_release [OF assms(1)] Let_def k_def [symmetric]
        w1_def m_def)
  have "quiet_since (say m w) w1"
    by (simp add: w1_def quiet_OnRightCtrlPressed quiet_OnLeftCtrlPressed quiet_OnSpecialKeyPressed)
  from quiet_sinceD [OF this] obtain out where
    out: "console w1 = console (say m w) @ out" "\<not> list_ex gesture_suppressed_msg out"
    by blast
  have "console w1 = console w @ m # out" using out(1) by (simp add: say_def)
  moreover have "gesture_fired_msg m \<and> \<not> gesture_suppressed_msg m" by (simp add: m_def)
  ultimately show ?thesis using c out(2) by auto
qed

lemma release_suppressed_console:
  assumes "GetSpecialKeyIndex v w = int i" and "held w i" and "intervened w i"
  shows "\<exists>n. console (snd (ProcessSpecialKeyEvent env v fl True ts pos w))
           = console w @ [PartOfCombination n]"
  using assms(2,3)
  by (simp add: ProcessSpecialKeyEvent_release [OF assms(1)] Let_def held_def intervened_def say_def)

section \<open>Properties of the keyboard branch of ProcessRawInput\<close>

subsection \<open>What the steps of the branch leave alone\<close>

lemma StoreEvent_keeps:
  "s_specialKeys (StoreEvent env ts pos kb w) = s_specialKeys w"
  "s_specialKeyStates (StoreEvent env ts pos kb w) = s_specialKeyStates w"
  "suggestion_displayed (StoreEvent env ts pos kb w) = suggestion_displayed w"
  "s_currentSuggestion (StoreEvent env ts pos kb w) = s_currentSuggestion w"
  by (simp_all add: StoreEvent_def LogKeyboardEvent_def UpdateModifierStates_def
      WriteLogEntry_def say_def Let_def suggestion_displayed_def)

lemma HideSuggestion_keeps:
  "s_specialKeys (HideSuggestion w) = s_specialKeys w"
  "s_specialKeyStates (HideSuggestion w) = s_specialKeyStates w"
  by (simp_all add: HideSuggestion_def say_def)

lemma HideSuggestion_text:
  "suggestion_displayed w \<Longrightarrow> s_currentSuggestion (HideSuggestion w) = []"
  by (simp add: HideSuggestion_def say_def suggestion_displayed_def)

lemma say_keeps:
  "s_specialKeys (say m w) = s_specialKeys w"
  "s_specialKeyStates (say m w) = s_specialKeyStates w"
  "suggestion_displayed (say m w) = suggestion_displayed w"
  "s_currentSuggestion (say m w) = s_currentSuggestion w"
  by (simp_all add: say_def suggestion_displayed_def)

lemma ProcessSpecialKeyEvent_regular:
  "GetSpecialKeyIndex v w < 0 \<Longrightarrow> ProcessSpecialKeyEvent env v fl up ts pos w = (False, w)"
  by (simp add: ProcessSpecialKeyEvent_def)

lemma ProcessSpecialKeyEvent_press:
  "\<not> GetSpecialKeyIndex v w < 0 \<Longrightarrow>
   ProcessSpecialKeyEvent env v fl False ts pos w =
     (True, w\<lparr>s_specialKeyStates := (s_specialKeyStates w)
        [nat (GetSpecialKeyIndex v w) := (s_specialKeyStates w ! nat (GetSpecialKeyIndex v w))
           \<lparr>isPressed := True, hadInterveningKeys := False,
            pressTimestamp := ts, pressPosition := pos\<rparr>]\<rparr>)"
  by (simp add: ProcessSpecialKeyEvent_def Let_def)

lemma ProcessSpecialKeyEvent_down_overlay:
  "suggestion_displayed (snd (ProcessSpecialKeyEvent env v fl False ts pos w)) = suggestion_displayed w"
  "s_currentSuggestion (snd (ProcessSpecialKeyEvent env v fl False ts pos w)) = s_currentSuggestion w"
  by (cases "GetSpecialKeyIndex v w < 0";
      simp add: ProcessSpecialKeyEvent_regular ProcessSpecialKeyEvent_press suggestion_displayed_def)+

subsection \<open>NotifyRegularKeyPressed\<close>

lemma NotifyRegularKeyPressed_at_overlay:
  "suggestion_displayed (NotifyRegularKeyPressed_at v i w) = suggestion_displayed w"
  "s_currentSuggestion (NotifyRegularKeyPressed_at v i w) = s_currentSuggestion w"
  by (simp_all add: NotifyRegularKeyPressed_at_def say_def suggestion_displayed_def)

lemma fold_Notify_overlay:
  "suggestion_displayed (fold (NotifyRegularKeyPressed_at v) is w) = suggestion_displayed w \<and>
   s_currentSuggestion (fold (NotifyRegularKeyPressed_at v) is w) = s_currentSuggestion w"
  by (induction "is" arbitrary: w) (simp_all add: NotifyRegularKeyPressed_at_overlay)

lemma NotifyRegularKeyPressed_overlay:
  "suggestion_displayed (NotifyRegularKeyPressed v w) = suggestion_displayed w"
  "s_currentSuggestion (NotifyRegularKeyPressed v w) = s_currentSuggestion w"
  by (simp_all add: NotifyRegularKeyPressed_def fold_Notify_overlay)

lemma NotifyRegularKeyPressed_at_states:
  "s_specialKeys (NotifyRegularKeyPressed_at v n w) = s_specialKeys w"
  "s_specialKeyStates (NotifyRegularKeyPressed_at v n w) =
     (if isPressed (s_specialKeyStates w ! n)
      then (s_specialKeyStates w)[n := (s_specialKeyStates w ! n)\<lparr>hadInterveningKeys := True\<rparr>]
      else s_specialKeyStates w)"
  by (simp_all add: NotifyRegularKeyPressed_at_def say_def)

lemma fold_Notify_states:
  "n \<le> length (s_specialKeyStates w) \<Longrightarrow>
   s_specialKeys (fold (NotifyRegularKeyPressed_at v) [0 ..< n] w) = s_specialKeys w \<and>
   length (s_specialKeyStates (fold (NotifyRegularKeyPressed_at v) [0 ..< n] w))
     = length (s_specialKeyStates w) \<and>
   (\<forall>j < length (s_specialKeyStates w).
      s_specialKeyStates (fold (NotifyRegularKeyPressed_at v) [0 ..< n] w) ! j =
        (if j < n \<and> isPressed (s_specialKeyStates w ! j)
         then (s_specialKeyStates w ! j)\<lparr>hadInterveningKeys := True\<rparr>
         else s_specialKeyStates w ! j))"
proof (induction n)
  case 0
  show ?case by simp
next
  case (Suc n)
  define u where "u = fold (NotifyRegularKeyPressed_at v) [0 ..< n] w"
  from Suc have n: "n < length (s_specialKeyStates w)" by simp
  from Suc.IH n have ih:
    "s_specialKeys u = s_specialKeys w"
    "length (s_specialKeyStates u) = length (s_specialKeyStates w)"
    "\<And>j. j < length (s_specialKeyStates w) \<Longrightarrow>
      s_specialKeyStates u ! j =
        (if j < n \<and> isPressed (s_specialKeyStates w ! j)
         then (s_specialKeyStates w ! j)\<lparr>hadInterveningKeys := True\<rparr>
         else s_specialKeyStates w ! j)"
    by (simp_all add: u_def)
  have un: "s_specialKeyStates u ! n = s_specialKeyStates w ! n" using ih(3) [OF n] by simp
  have f: "fold (NotifyRegularKeyPressed_at v) [0 ..< Suc n] w = NotifyRegularKeyPressed_at v n u"
    by (simp add: u_def)
  show ?case unfolding f
    using ih(1,2) n un ih(3)
    by (auto simp add: NotifyRegularKeyPressed_at_states nth_list_update less_Suc_eq)
qed

lemma NotifyRegularKeyPressed_marks:
  assumes "vectors_aligned w" and "i < length (s_specialKeys w)" and "held w i"
  shows "held (NotifyRegularKeyPressed v w) i \<and> intervened (NotifyRegularKeyPressed v w) i"
proof -
  from assms(1) have l: "length (s_specialKeys w) \<le> length (s_specialKeyStates w)"
    by (simp add: vectors_aligned_def)
  from assms(1,2) have i: "i < length (s_specialKeyStates w)" by (simp add: vectors_aligned_def)
  from fold_Notify_states [OF l, of v] i assms(2,3)
  have "s_specialKeyStates (NotifyRegularKeyPressed v w) ! i
          = (s_specialKeyStates w ! i)\<lparr>hadInterveningKeys := True\<rparr>"
    by (simp add: NotifyRegularKeyPressed_def held_def)
  then show ?thesis using assms(3) by (simp add: held_def intervened_def)
qed


subsection \<open>A key-down event\<close>

lemma ProcessRawInput_keyboard_down:
  assumes "kbFlags AND RI_KEY_BREAK = 0" and "kbVKey \<noteq> VK_ESCAPE"
  shows "ProcessRawInput_keyboard env ts pos kbVKey mc kbFlags w =
     (let w1 = StoreEvent env ts pos
                 \<lparr>vKey = kbVKey, scanCode = mc, flags = kbFlags, isKeyUp = False\<rparr> w;
          w2 = (if \<not> (kbVKey = VK_CONTROL \<and> kbFlags AND RI_KEY_E0 = 0) then HideSuggestion w1 else w1);
          p = ProcessSpecialKeyEvent env kbVKey kbFlags False ts pos w2;
          w4 = (if \<not> fst p then NotifyRegularKeyPressed kbVKey (snd p) else snd p)
      in if \<not> fst p then
           say (KeyLine ts kbVKey mc False
                  (if IsSpecialKey kbVKey w4 then Some (GetKeyName kbVKey) else None) pos) w4
         else w4)"
  using assms by (simp add: ProcessRawInput_keyboard_def Let_def case_prod_beta)

lemma ProcessRawInput_keyboard_escape:
  assumes "kbFlags AND RI_KEY_BREAK = 0"
  shows "ProcessRawInput_keyboard env ts pos VK_ESCAPE mc kbFlags w =
     (say (EscShutdown ts)
        (StoreEvent env ts pos \<lparr>vKey = VK_ESCAPE, scanCode = mc, flags = kbFlags, isKeyUp = False\<rparr> w))
     \<lparr>g_running := False, quit_posted := True\<rparr>"
  using assms by (simp add: ProcessRawInput_keyboard_def Let_def)

lemma NotifyRegularKeyPressed_states:
  assumes "vectors_aligned w" and "i < length (s_specialKeys w)"
  shows "s_specialKeyStates (NotifyRegularKeyPressed v w) ! i =
           (if held w i then (s_specialKeyStates w ! i)\<lparr>hadInterveningKeys := True\<rparr>
            else s_specialKeyStates w ! i)"
proof -
  from assms(1) have l: "length (s_specialKeys w) \<le> length (s_specialKeyStates w)"
    by (simp add: vectors_aligned_def)
  from assms have i: "i < length (s_specialKeyStates w)" by (simp add: vectors_aligned_def)
  from fold_Notify_states [OF l, of v] i assms(2) show ?thesis
    by (simp add: NotifyRegularKeyPressed_def held_def)
qed

lemma regular_key_down_states:
  assumes "vectors_aligned w"
    and "kbFlags AND RI_KEY_BREAK = 0"
    and "GetSpecialKeyIndex kbVKey w < 0"
    and "kbVKey \<noteq> VK_ESCAPE"
    and "i < length (s_specialKeys w)"
  shows "s_specialKeyStates (ProcessRawInput_keyboard env ts pos kbVKey mc kbFlags w) ! i =
           (if held w i then (s_specialKeyStates w ! i)\<lparr>hadInterveningKeys := True\<rparr>
            else s_specialKeyStates w ! i)"
proof -
  define w1 where "w1 = StoreEvent env ts pos
                 \<lparr>vKey = kbVKey, scanCode = mc, flags = kbFlags, isKeyUp = False\<rparr> w"
  define w2 where "w2 = (if \<not> (kbVKey = VK_CONTROL \<and> kbFlags AND RI_KEY_E0 = 0) then HideSuggestion w1 else w1)"
  define w4 where "w4 = NotifyRegularKeyPressed kbVKey w2"
  have k: "s_specialKeys w2 = s_specialKeys w" "s_specialKeyStates w2 = s_specialKeyStates w"
    by (simp_all add: w2_def w1_def StoreEvent_keeps HideSuggestion_keeps)
  have idx: "GetSpecialKeyIndex kbVKey w2 < 0"
    using assms(3) k(1) by (simp add: GetSpecialKeyIndex_def)
  have p: "ProcessSpecialKeyEvent env kbVKey kbFlags False ts pos w2 = (False, w2)"
    using idx by (rule ProcessSpecialKeyEvent_regular)
  have r: "ProcessRawInput_keyboard env ts pos kbVKey mc kbFlags w =
      say (KeyLine ts kbVKey mc False
             (if IsSpecialKey kbVKey w4 then Some (GetKeyName kbVKey) else None) pos) w4"
  proof -
    have "ProcessRawInput_keyboard env ts pos kbVKey mc kbFlags w =
      (let p = ProcessSpecialKeyEvent env kbVKey kbFlags False ts pos w2;
           u = (if \<not> fst p then NotifyRegularKeyPressed kbVKey (snd p) else snd p)
       in if \<not> fst p then
            say (KeyLine ts kbVKey mc False
                   (if IsSpecialKey kbVKey u then Some (GetKeyName kbVKey) else None) pos) u
          else u)"
      by (simp only: ProcessRawInput_keyboard_down [OF assms(2,4)] Let_def w1_def w2_def)
    then show ?thesis by (simp add: p w4_def)
  qed
  have "vectors_aligned w2" "i < length (s_specialKeys w2)"
    using assms(1,5) k by (simp_all add: vectors_aligned_def)
  from NotifyRegularKeyPressed_states [OF this, of kbVKey]
  show ?thesis unfolding r by (simp add: w4_def say_keeps k held_def)
qed

lemma special_key_down_states:
  assumes "vectors_aligned w"
    and "kbFlags AND RI_KEY_BREAK = 0"
    and "GetSpecialKeyIndex kbVKey w = int j"
    and "kbVKey \<noteq> VK_ESCAPE"
  shows "s_specialKeyStates (ProcessRawInput_keyboard env ts pos kbVKey mc kbFlags w) =
           (s_specialKeyStates w)
             [j := (s_specialKeyStates w ! j)
                \<lparr>isPressed := True, hadInterveningKeys := False,
                 pressTimestamp := ts, pressPosition := pos\<rparr>]"
proof -
  define w1 where "w1 = StoreEvent env ts pos
                 \<lparr>vKey = kbVKey, scanCode = mc, flags = kbFlags, isKeyUp = False\<rparr> w"
  define w2 where "w2 = (if \<not> (kbVKey = VK_CONTROL \<and> kbFlags AND RI_KEY_E0 = 0) then HideSuggestion w1 else w1)"
  have k: "s_specialKeys w2 = s_specialKeys w" "s_specialKeyStates w2 = s_specialKeyStates w"
    by (simp_all add: w2_def w1_def StoreEvent_keeps HideSuggestion_keeps)
  have idx: "GetSpecialKeyIndex kbVKey w2 = int j"
    using assms(3) k(1) by (simp add: GetSpecialKeyIndex_def)
  then have n: "\<not> GetSpecialKeyIndex kbVKey w2 < 0" by simp
  have p: "ProcessSpecialKeyEvent env kbVKey kbFlags False ts pos w2 =
     (True, w2\<lparr>s_specialKeyStates := (s_specialKeyStates w2)
        [j := (s_specialKeyStates w2 ! j)
           \<lparr>isPressed := True, hadInterveningKeys := False,
            pressTimestamp := ts, pressPosition := pos\<rparr>]\<rparr>)"
    using ProcessSpecialKeyEvent_press [OF n, of env kbFlags ts pos] by (simp add: idx)
  have "ProcessRawInput_keyboard env ts pos kbVKey mc kbFlags w =
      (let p = ProcessSpecialKeyEvent env kbVKey kbFlags False ts pos w2;
           u = (if \<not> fst p then NotifyRegularKeyPressed kbVKey (snd p) else snd p)
       in if \<not> fst p then
            say (KeyLine ts kbVKey mc False
                   (if IsSpecialKey kbVKey u then Some (GetKeyName kbVKey) else None) pos) u
          else u)"
    by (simp only: ProcessRawInput_keyboard_down [OF assms(2,4)] Let_def w1_def w2_def)
  then show ?thesis by (simp add: p k)
qed

lemma escape_key_down_states:
  assumes "kbFlags AND RI_KEY_BREAK = 0"
  shows "s_specialKeyStates (ProcessRawInput_keyboard env ts pos VK_ESCAPE mc kbFlags w)
           = s_specialKeyStates w"
  by (simp add: ProcessRawInput_keyboard_escape [OF assms] say_keeps StoreEvent_keeps)

text \<open>
  Claim C2, amended: let a key-down event be processed in a state where the two vectors
  have the same length. If the key is not monitored (and is not Escape), every monitored
  key that is recorded as pressed stays pressed and has \<open>hadInterveningKeys\<close> set, and the
  state of every monitored key that is not pressed is unchanged. If the key is itself a
  monitored key, it becomes pressed with \<open>hadInterveningKeys\<close> false, and the state of
  every other monitored key is unchanged: a held special key is not marked by the
  key-down of another special key. After the key-down of Escape, which shuts the
  program down, no state is changed.
\<close>

theorem key_down_marks_held_special_keys_iff_regular:
  assumes "vectors_aligned w" and "kbFlags AND RI_KEY_BREAK = 0"
  shows
    "(kbVKey \<noteq> VK_ESCAPE \<and> GetSpecialKeyIndex kbVKey w < 0 \<longrightarrow>
        (\<forall>i < length (s_specialKeys w).
           (held w i \<longrightarrow>
              held (ProcessRawInput_keyboard env ts pos kbVKey mc kbFlags w) i \<and>
              intervened (ProcessRawInput_keyboard env ts pos kbVKey mc kbFlags w) i) \<and>
           (\<not> held w i \<longrightarrow>
              s_specialKeyStates (ProcessRawInput_keyboard env ts pos kbVKey mc kbFlags w) ! i
                = s_specialKeyStates w ! i))) \<and>
     (kbVKey \<noteq> VK_ESCAPE \<longrightarrow>
        (\<forall>j. GetSpecialKeyIndex kbVKey w = int j \<longrightarrow>
           held (ProcessRawInput_keyboard env ts pos kbVKey mc kbFlags w) j \<and>
           \<not> intervened (ProcessRawInput_keyboard env ts pos kbVKey mc kbFlags w) j \<and>
           (\<forall>i < length (s_specialKeys w). i \<noteq> j \<longrightarrow>
              s_specialKeyStates (ProcessRawInput_keyboard env ts pos kbVKey mc kbFlags w) ! i
                = s_specialKeyStates w ! i))) \<and>
     (kbVKey = VK_ESCAPE \<longrightarrow>
        s_specialKeyStates (ProcessRawInput_keyboard env ts pos kbVKey mc kbFlags w)
          = s_specialKeyStates w)"
proof (intro conjI impI allI)
  fix i
  assume a: "kbVKey \<noteq> VK_ESCAPE \<and> GetSpecialKeyIndex kbVKey w < 0"
    and i: "i < length (s_specialKeys w)"
  note s = regular_key_down_states [OF assms, of kbVKey i env ts pos mc]
  show "held (ProcessRawInput_keyboard env ts pos kbVKey mc kbFlags w) i"
    if "held w i" using s a i that by (simp add: held_def)
  show "intervened (ProcessRawInput_keyboard env ts pos kbVKey mc kbFlags w) i"
    if "held w i" using s a i that by (simp add: held_def intervened_def)
  show "s_specialKeyStates (ProcessRawInput_keyboard env ts pos kbVKey mc kbFlags w) ! i
          = s_specialKeyStates w ! i"
    if "\<not> held w i" using s a i that by simp
next
  fix j
  assume e: "kbVKey \<noteq> VK_ESCAPE" and j: "GetSpecialKeyIndex kbVKey w = int j"
  from GetSpecialKeyIndex_found [OF j] assms(1)
  have jl: "j < length (s_specialKeyStates w)" by (simp add: vectors_aligned_def)
  note s = special_key_down_states [OF assms j e, of env ts pos mc]
  show "held (ProcessRawInput_keyboard env ts pos kbVKey mc kbFlags w) j"
    using jl by (simp add: s held_def)
  show "\<not> intervened (ProcessRawInput_keyboard env ts pos kbVKey mc kbFlags w) j"
    using jl by (simp add: s intervened_def)
  show "s_specialKeyStates (ProcessRawInput_keyboard env ts pos kbVKey mc kbFlags w) ! i
          = s_specialKeyStates w ! i"
    if "i < length (s_specialKeys w)" "i \<noteq> j" for i
    using that by (simp add: s)
next
  assume "kbVKey = VK_ESCAPE"
  then show "s_specialKeyStates (ProcessRawInput_keyboard env ts pos kbVKey mc kbFlags w)
          = s_specialKeyStates w"
    by (simp add: escape_key_down_states [OF assms(2)])
qed

theorem key_down_marks_held_special_keys_iff_regular_witness:
  "vectors_aligned ctrl_shift_down \<and> (0 :: WORD) AND RI_KEY_BREAK = 0 \<and>
   (0x41 :: WORD) \<noteq> VK_ESCAPE \<and> GetSpecialKeyIndex 0x41 ctrl_shift_down < 0 \<and>
   length (s_specialKeys ctrl_shift_down) = 3 \<and>
   held ctrl_shift_down 0 \<and> \<not> intervened ctrl_shift_down 0 \<and>
   held ctrl_shift_down 1 \<and> \<not> intervened ctrl_shift_down 1 \<and>
   \<not> held ctrl_shift_down 2 \<and>
   held (ProcessRawInput_keyboard env_suggest 30 (5, 5) 0x41 0x1E 0 ctrl_shift_down) 0 \<and>
   intervened (ProcessRawInput_keyboard env_suggest 30 (5, 5) 0x41 0x1E 0 ctrl_shift_down) 0 \<and>
   held (ProcessRawInput_keyboard env_suggest 30 (5, 5) 0x41 0x1E 0 ctrl_shift_down) 1 \<and>
   intervened (ProcessRawInput_keyboard env_suggest 30 (5, 5) 0x41 0x1E 0 ctrl_shift_down) 1 \<and>
   s_specialKeyStates (ProcessRawInput_keyboard env_suggest 30 (5, 5) 0x41 0x1E 0 ctrl_shift_down) ! 2
     = s_specialKeyStates ctrl_shift_down ! 2 \<and>
   vectors_aligned ctrl_down \<and> VK_SHIFT \<noteq> VK_ESCAPE \<and>
   GetSpecialKeyIndex VK_SHIFT ctrl_down = int 1 \<and> held ctrl_down 0 \<and>
   held (ProcessRawInput_keyboard env_suggest 20 (0, 0) VK_SHIFT 0x2A 0 ctrl_down) 1 \<and>
   \<not> intervened (ProcessRawInput_keyboard env_suggest 20 (0, 0) VK_SHIFT 0x2A 0 ctrl_down) 1 \<and>
   s_specialKeyStates (ProcessRawInput_keyboard env_suggest 20 (0, 0) VK_SHIFT 0x2A 0 ctrl_down) ! 0
     = s_specialKeyStates ctrl_down ! 0"
proof -
  have h1: "vectors_aligned ctrl_shift_down" by code_simp
  have h2: "(0 :: WORD) AND RI_KEY_BREAK = 0" by simp
  have h3: "(0x41 :: WORD) \<noteq> VK_ESCAPE" by simp
  have h4: "GetSpecialKeyIndex 0x41 ctrl_shift_down < 0" by code_simp
  have h5: "length (s_specialKeys ctrl_shift_down) = 3" by code_simp
  have h6: "held ctrl_shift_down 0" "\<not> intervened ctrl_shift_down 0"
    "held ctrl_shift_down 1" "\<not> intervened ctrl_shift_down 1" "\<not> held ctrl_shift_down 2"
    by code_simp+
  have g1: "vectors_aligned ctrl_down" by code_simp
  have g2: "VK_SHIFT \<noteq> VK_ESCAPE" by simp
  have g3: "GetSpecialKeyIndex VK_SHIFT ctrl_down = int 1" by code_simp
  have g4: "held ctrl_down 0" by code_simp
  have g5: "length (s_specialKeys ctrl_down) = 3" by code_simp
  note a = key_down_marks_held_special_keys_iff_regular
    [OF h1 h2, of "0x41" env_suggest 30 "(5, 5)" "0x1E"]
  note b = key_down_marks_held_special_keys_iff_regular
    [OF g1 h2, of VK_SHIFT env_suggest 20 "(0, 0)" "0x2A"]
  from a h3 h4 have a':
    "\<forall>i < length (s_specialKeys ctrl_shift_down).
           (held ctrl_shift_down i \<longrightarrow>
              held (ProcessRawInput_keyboard env_suggest 30 (5, 5) 0x41 0x1E 0 ctrl_shift_down) i \<and>
              intervened (ProcessRawInput_keyboard env_suggest 30 (5, 5) 0x41 0x1E 0 ctrl_shift_down) i) \<and>
           (\<not> held ctrl_shift_down i \<longrightarrow>
              s_specialKeyStates (ProcessRawInput_keyboard env_suggest 30 (5, 5) 0x41 0x1E 0 ctrl_shift_down) ! i
                = s_specialKeyStates ctrl_shift_down ! i)"
    by blast
  from a' [rule_format, of 0] a' [rule_format, of 1] a' [rule_format, of 2] h5 h6
  have a'': "held (ProcessRawInput_keyboard env_suggest 30 (5, 5) 0x41 0x1E 0 ctrl_shift_down) 0"
    "intervened (ProcessRawInput_keyboard env_suggest 30 (5, 5) 0x41 0x1E 0 ctrl_shift_down) 0"
    "held (ProcessRawInput_keyboard env_suggest 30 (5, 5) 0x41 0x1E 0 ctrl_shift_down) 1"
    "intervened (ProcessRawInput_keyboard env_suggest 30 (5, 5) 0x41 0x1E 0 ctrl_shift_down) 1"
    "s_specialKeyStates (ProcessRawInput_keyboard env_suggest 30 (5, 5) 0x41 0x1E 0 ctrl_shift_down) ! 2
     = s_specialKeyStates ctrl_shift_down ! 2"
    by simp_all
  from b g2 g3 have b':
    "held (ProcessRawInput_keyboard env_suggest 20 (0, 0) VK_SHIFT 0x2A 0 ctrl_down) 1 \<and>
     \<not> intervened (ProcessRawInput_keyboard env_suggest 20 (0, 0) VK_SHIFT 0x2A 0 ctrl_down) 1 \<and>
     (\<forall>i < length (s_specialKeys ctrl_down). i \<noteq> 1 \<longrightarrow>
        s_specialKeyStates (ProcessRawInput_keyboard env_suggest 20 (0, 0) VK_SHIFT 0x2A 0 ctrl_down) ! i
          = s_specialKeyStates ctrl_down ! i)"
    by blast
  then have b'': "s_specialKeyStates (ProcessRawInput_keyboard env_suggest 20 (0, 0) VK_SHIFT 0x2A 0 ctrl_down) ! 0
          = s_specialKeyStates ctrl_down ! 0"
    using g5 by simp
  show ?thesis
    using h1 h2 h3 h4 h5 h6 g1 g2 g3 g4 a'' b' b'' by (simp only: simp_thms)
qed

text \<open>
  Claim C2, as stated, fails where the intervening key is itself a monitored key:
  \<open>NotifyRegularKeyPressed\<close> is called only when \<open>ProcessSpecialKeyEvent\<close> did not
  handle the event. With Ctrl held, the key-down of Shift leaves the
  \<open>hadInterveningKeys\<close> of Ctrl (index 0) false, both keys being pressed. The key-down
  of Escape, after which the program shuts down, leaves it false as well.
\<close>

theorem special_key_down_does_not_mark_held_special_key:
  "held ctrl_down 0 \<and>
   held (ProcessRawInput_keyboard env_suggest 20 (0, 0) VK_SHIFT 0x2A 0 ctrl_down) 0 \<and>
   held (ProcessRawInput_keyboard env_suggest 20 (0, 0) VK_SHIFT 0x2A 0 ctrl_down) 1 \<and>
   \<not> intervened (ProcessRawInput_keyboard env_suggest 20 (0, 0) VK_SHIFT 0x2A 0 ctrl_down) 0 \<and>
   held (ProcessRawInput_keyboard env_suggest 20 (0, 0) VK_ESCAPE 0x01 0 ctrl_down) 0 \<and>
   \<not> intervened (ProcessRawInput_keyboard env_suggest 20 (0, 0) VK_ESCAPE 0x01 0 ctrl_down) 0"
  by code_simp

text \<open>
  Claim C3, amended: while a suggestion is displayed, a key-down event leaves it displayed
  exactly when the key is Escape (the program shuts down before the overlay is looked
  at) or the non-extended (left) Ctrl; every other key-down hides the overlay, the
  key-down of the extended (right) Ctrl, the accept key, included.
\<close>

theorem key_down_hides_overlay_except_left_ctrl_and_escape:
  assumes "suggestion_displayed w" and "kbFlags AND RI_KEY_BREAK = 0"
  shows "suggestion_displayed (ProcessRawInput_keyboard env ts pos kbVKey mc kbFlags w)
           \<longleftrightarrow> kbVKey = VK_ESCAPE \<or> (kbVKey = VK_CONTROL \<and> kbFlags AND RI_KEY_E0 = 0)"
proof (cases "kbVKey = VK_ESCAPE")
  case True
  show ?thesis unfolding True ProcessRawInput_keyboard_escape [OF assms(2)]
    using assms(1) by (simp add: suggestion_displayed_def say_keeps [unfolded suggestion_displayed_def]
        StoreEvent_keeps [unfolded suggestion_displayed_def])
next
  case False
  define w1 where "w1 = StoreEvent env ts pos
                 \<lparr>vKey = kbVKey, scanCode = mc, flags = kbFlags, isKeyUp = False\<rparr> w"
  define w2 where "w2 = (if \<not> (kbVKey = VK_CONTROL \<and> kbFlags AND RI_KEY_E0 = 0) then HideSuggestion w1 else w1)"
  define p where "p = ProcessSpecialKeyEvent env kbVKey kbFlags False ts pos w2"
  define w4 where "w4 = (if \<not> fst p then NotifyRegularKeyPressed kbVKey (snd p) else snd p)"
  have r: "ProcessRawInput_keyboard env ts pos kbVKey mc kbFlags w =
      (if \<not> fst p then
           say (KeyLine ts kbVKey mc False
                  (if IsSpecialKey kbVKey w4 then Some (GetKeyName kbVKey) else None) pos) w4
         else w4)"
    by (simp only: ProcessRawInput_keyboard_down [OF assms(2) False] Let_def
        w1_def w2_def p_def w4_def)
  have d1: "suggestion_displayed w1" using assms(1) by (simp add: w1_def StoreEvent_keeps)
  have d2: "suggestion_displayed w2 \<longleftrightarrow> (kbVKey = VK_CONTROL \<and> kbFlags AND RI_KEY_E0 = 0)"
    using d1 by (simp add: w2_def HideSuggestion_not_displayed)
  have d3: "suggestion_displayed (snd p) = suggestion_displayed w2"
    by (simp add: p_def ProcessSpecialKeyEvent_down_overlay)
  have d4: "suggestion_displayed w4 = suggestion_displayed (snd p)"
    by (simp add: w4_def NotifyRegularKeyPressed_overlay)
  show ?thesis unfolding r using False d2 d3 d4 by (simp add: say_keeps)
qed

theorem key_down_hides_overlay_except_left_ctrl_and_escape_witness:
  "suggestion_displayed suggested \<and> (0 :: WORD) AND RI_KEY_BREAK = 0 \<and>
   (suggestion_displayed (ProcessRawInput_keyboard env_suggest 60 (0, 0) 0x41 0x1E 0 suggested)
      \<longleftrightarrow> (0x41 :: WORD) = VK_ESCAPE \<or> ((0x41 :: WORD) = VK_CONTROL \<and> 0 AND RI_KEY_E0 = (0 :: WORD))) \<and>
   \<not> suggestion_displayed (ProcessRawInput_keyboard env_suggest 60 (0, 0) 0x41 0x1E 0 suggested)"
proof -
  have h1: "suggestion_displayed suggested" by code_simp
  have h2: "(0 :: WORD) AND RI_KEY_BREAK = 0" by simp
  show ?thesis
    using h1 h2
      key_down_hides_overlay_except_left_ctrl_and_escape [OF h1 h2, of env_suggest 60 "(0, 0)" "0x41" "0x1E"]
    by simp
qed

text \<open>
  Claim C3, as stated, fails both ways: with a suggestion displayed, the key-down of the
  right Ctrl (the accept key) hides the overlay, and the key-down of the left Ctrl, which
  is another key than the accept key, does not; nor does the key-down of Escape.
\<close>

theorem right_ctrl_down_hides_overlay_left_ctrl_down_does_not:
  "suggestion_displayed suggested \<and>
   \<not> suggestion_displayed
       (ProcessRawInput_keyboard env_suggest 60 (0, 0) VK_CONTROL 0x1D RI_KEY_E0 suggested) \<and>
   suggestion_displayed
       (ProcessRawInput_keyboard env_suggest 60 (0, 0) VK_CONTROL 0x1D 0 suggested) \<and>
   suggestion_displayed
       (ProcessRawInput_keyboard env_suggest 60 (0, 0) VK_ESCAPE 0x01 0 suggested)"
  by code_simp

section \<open>Properties of the key-to-character mapping\<close>

lemma letter_key_range:
  fixes v :: WORD
  assumes "0x41 \<le> v" and "v \<le> 0x5A"
  shows "65 \<le> unat v \<and> unat v \<le> 90"
  using assms by (simp add: word_le_nat_alt)

lemma char_of_uint: "(char_of (uint (v :: WORD)) :: char) = char_of (unat v)"
  by (metis char_of_nat of_nat_unat)

lemma VKeyToChar_letter:
  fixes v :: WORD
  assumes "0x41 \<le> v" and "v \<le> 0x5A"
  shows "VKeyToChar v w =
           [char_of (if s_shiftPressed w \<noteq> s_capsLockOn w then unat v else unat v + 32)]"
proof -
  from assms have ui: "65 \<le> uint v" "uint v \<le> 90" by (simp_all add: word_le_def)
  have p: "IsPrintableKey v" using assms by (simp add: IsPrintableKey_def)
  have l: "(char_of (65 + (uint v - 0x41)) :: char) = char_of (uint v)" by simp
  have m: "uint v mod 256 = uint v" using ui by simp
  have o: "(of_char (char_of (uint v) :: char) :: int) = uint v"
    using ui by (simp add: of_char_of)
  have "(char_of (uint v - 65 + 97) :: char) = char_of (int (unat v + 32))"
    by (rule arg_cong [where f = char_of]) simp
  then have lo: "(char_of (uint v - 65 + 97) :: char) = char_of (unat v + 32)"
    by (simp only: char_of_nat)
  have "VKeyToChar v w =
          [if s_shiftPressed w \<noteq> s_capsLockOn w then char_of (uint v)
           else char_of (uint v - 65 + 97)]"
    using assms p m by (simp add: VKeyToChar_def Let_def l o)
  then show ?thesis by (simp only: lo char_of_uint if_distrib [of char_of])
qed

text \<open>
  Claim C6: for every virtual key in the letter range \<open>0x41\<close> to \<open>0x5A\<close> and every state of
  the two modifier flags, \<open>VKeyToChar\<close> returns one character: the upper-case letter
  with the code of the key when exactly one of \<open>s_shiftPressed\<close> and \<open>s_capsLockOn\<close> is
  set, and otherwise the lower-case letter, 32 above it. So the character is upper-case
  if and only if shift XOR caps-lock holds, and lower-case if and only if it does not.
\<close>

theorem letter_upper_iff_shift_xor_caps:
  fixes v :: WORD
  assumes "0x41 \<le> v" and "v \<le> 0x5A"
  shows "VKeyToChar v w =
           [char_of (if s_shiftPressed w \<noteq> s_capsLockOn w then unat v else unat v + 32)] \<and>
         (is_upper (hd (VKeyToChar v w)) \<longleftrightarrow> s_shiftPressed w \<noteq> s_capsLockOn w) \<and>
         (is_lower (hd (VKeyToChar v w)) \<longleftrightarrow> s_shiftPressed w = s_capsLockOn w)"
proof -
  from letter_key_range [OF assms] have n: "65 \<le> unat v" "unat v \<le> 90" by simp_all
  have a: "(of_char (char_of (unat v) :: char) :: nat) = unat v"
    using n by (simp add: of_char_of)
  have b: "(of_char (char_of (unat v + 32) :: char) :: nat) = unat v + 32"
    using n by (simp add: of_char_of)
  show ?thesis
    unfolding VKeyToChar_letter [OF assms] using n a b
    by (simp add: is_upper_def is_lower_def)
qed

theorem letter_upper_iff_shift_xor_caps_witness:
  "(0x41 :: WORD) \<le> 0x51 \<and> (0x51 :: WORD) \<le> 0x5A \<and>
   VKeyToChar 0x51 (started\<lparr>s_shiftPressed := True, s_capsLockOn := True\<rparr>) = ''q'' \<and>
   \<not> is_upper (hd (VKeyToChar 0x51 (started\<lparr>s_shiftPressed := True, s_capsLockOn := True\<rparr>))) \<and>
   is_lower (hd (VKeyToChar 0x51 (started\<lparr>s_shiftPressed := True, s_capsLockOn := True\<rparr>)))"
proof -
  have h1: "(0x41 :: WORD) \<le> 0x51" by simp
  have h2: "(0x51 :: WORD) \<le> 0x5A" by simp
  have c: "(char_of (113 :: nat) :: char) = CHR ''q''" by code_simp
  show ?thesis
    using h1 h2 c
      letter_upper_iff_shift_xor_caps [OF h1 h2, of "started\<lparr>s_shiftPressed := True, s_capsLockOn := True\<rparr>"]
    by (simp add: is_upper_def is_lower_def)
qed

section \<open>Supporting facts\<close>

subsection \<open>An injector that was not initialised sends nothing\<close>

lemma SendTextString_uninitialized:
  "\<not> InputInjector_initialized w \<Longrightarrow>
   SendTextString env text w = (False, say ErrInjectorNotInitialized w)"
  by (simp add: SendTextString_def)

subsection \<open>The vectors of the handler in the states the program reaches\<close>

text \<open>
  The keyboard branch and the handlers it calls never change \<open>s_specialKeys\<close> or the
  length of \<open>s_specialKeyStates\<close>; so in every reachable state the two vectors have the
  same length and the monitored keys are distinct, which is what the theorems on
  \<open>AddSpecialKey\<close>, on the release of a key and on a regular key-down assume.
\<close>

lemma OnRightCtrlPressed_vectors:
  "s_specialKeys (OnRightCtrlPressed env pt rt pp rp w) = s_specialKeys w \<and>
   s_specialKeyStates (OnRightCtrlPressed env pt rt pp rp w) = s_specialKeyStates w"
proof (cases "s_hasPendingSuggestion w \<and> s_pendingSuggestion w \<noteq> []")
  case False
  show ?thesis by (simp add: OnRightCtrlPressed_none [OF False])
next
  case True
  define w1 where "w1 = say (AcceptingSuggestion (s_pendingSuggestion w)) (say RightCtrlBanner w)"
  define p where "p = SendTextString env (s_pendingSuggestion w) w1"
  have e: "s_specialKeys (snd p) = s_specialKeys w1" "s_specialKeyStates (snd p) = s_specialKeyStates w1"
    using effects_only_fields(5,6) [OF effects_only_SendTextString, of env "s_pendingSuggestion w" w1]
    by (simp_all add: p_def)
  have w1: "s_specialKeys w1 = s_specialKeys w" "s_specialKeyStates w1 = s_specialKeyStates w"
    by (simp_all add: w1_def say_keeps)
  show ?thesis using True e w1
    by (simp add: OnRightCtrlPressed_some Let_def p_def [symmetric] w1_def [symmetric]
        say_keeps HideSuggestion_keeps)
qed

lemma ShowSuggestion_keeps:
  "s_specialKeys (ShowSuggestion t w) = s_specialKeys w"
  "s_specialKeyStates (ShowSuggestion t w) = s_specialKeyStates w"
  by (simp_all add: ShowSuggestion_def say_def)

lemma OnLeftCtrlPressed_vectors:
  "s_specialKeys (OnLeftCtrlPressed env pt rt pp rp w) = s_specialKeys w \<and>
   s_specialKeyStates (OnLeftCtrlPressed env pt rt pp rp w) = s_specialKeyStates w"
  by (simp add: OnLeftCtrlPressed_def Let_def say_keeps ShowSuggestion_keeps
      split: python_output.split)

lemma OnSpecialKeyPressed_vectors:
  "s_specialKeys (OnSpecialKeyPressed v pt rt pp rp w) = s_specialKeys w \<and>
   s_specialKeyStates (OnSpecialKeyPressed v pt rt pp rp w) = s_specialKeyStates w"
  by (simp add: OnSpecialKeyPressed_def OnShiftPressed_def OnAltPressed_def say_keeps)

lemma ProcessSpecialKeyEvent_vectors:
  "s_specialKeys (snd (ProcessSpecialKeyEvent env v fl up ts pos w)) = s_specialKeys w \<and>
   length (s_specialKeyStates (snd (ProcessSpecialKeyEvent env v fl up ts pos w)))
     = length (s_specialKeyStates w)"
proof (cases "GetSpecialKeyIndex v w < 0")
  case True
  then show ?thesis by (simp add: ProcessSpecialKeyEvent_regular)
next
  case special: False
  then have i: "GetSpecialKeyIndex v w = int (nat (GetSpecialKeyIndex v w))" by simp
  show ?thesis
  proof (cases up)
    case False
    then have "up = False" by simp
    show ?thesis unfolding \<open>up = False\<close> ProcessSpecialKeyEvent_press [OF special]
      by simp
  next
    case True
    then have "up = True" by simp
    show ?thesis unfolding \<open>up = True\<close> ProcessSpecialKeyEvent_release [OF i]
      by (simp add: Let_def OnRightCtrlPressed_vectors OnLeftCtrlPressed_vectors
          OnSpecialKeyPressed_vectors say_keeps)
  qed
qed

lemma NotifyRegularKeyPressed_vectors:
  assumes "vectors_aligned w"
  shows "s_specialKeys (NotifyRegularKeyPressed v w) = s_specialKeys w \<and>
         length (s_specialKeyStates (NotifyRegularKeyPressed v w)) = length (s_specialKeyStates w)"
proof -
  from assms have "length (s_specialKeys w) \<le> length (s_specialKeyStates w)"
    by (simp add: vectors_aligned_def)
  from fold_Notify_states [OF this, of v] show ?thesis
    by (simp add: NotifyRegularKeyPressed_def)
qed

lemma ProcessRawInput_keyboard_vectors:
  assumes "vectors_aligned w"
  shows "s_specialKeys (ProcessRawInput_keyboard env ts pos kbVKey mc kbFlags w) = s_specialKeys w \<and>
         length (s_specialKeyStates (ProcessRawInput_keyboard env ts pos kbVKey mc kbFlags w))
           = length (s_specialKeyStates w)"
proof -
  define up where "up = (kbFlags AND RI_KEY_BREAK \<noteq> 0)"
  define w1 where "w1 = StoreEvent env ts pos
     \<lparr>vKey = kbVKey, scanCode = mc, flags = kbFlags, isKeyUp = up\<rparr> w"
  define w2 where "w2 = (if \<not> up then
                 (if \<not> (kbVKey = VK_CONTROL \<and> kbFlags AND RI_KEY_E0 = 0) then HideSuggestion w1 else w1)
               else w1)"
  define p where "p = ProcessSpecialKeyEvent env kbVKey kbFlags up ts pos w2"
  define w4 where "w4 = (if \<not> fst p \<and> \<not> up then NotifyRegularKeyPressed kbVKey (snd p) else snd p)"
  have k1: "s_specialKeys w1 = s_specialKeys w" "s_specialKeyStates w1 = s_specialKeyStates w"
    by (simp_all add: w1_def StoreEvent_keeps)
  have k2: "s_specialKeys w2 = s_specialKeys w" "s_specialKeyStates w2 = s_specialKeyStates w"
    using k1 by (simp_all add: w2_def HideSuggestion_keeps)
  have k3: "s_specialKeys (snd p) = s_specialKeys w"
    "length (s_specialKeyStates (snd p)) = length (s_specialKeyStates w)"
    using ProcessSpecialKeyEvent_vectors [of env kbVKey kbFlags up ts pos w2] k2
    by (simp_all add: p_def)
  have "vectors_aligned (snd p)" using assms k3 by (simp add: vectors_aligned_def)
  from NotifyRegularKeyPressed_vectors [OF this, of kbVKey] k3
  have k4: "s_specialKeys w4 = s_specialKeys w"
    "length (s_specialKeyStates w4) = length (s_specialKeyStates w)"
    by (simp_all add: w4_def)
  have "ProcessRawInput_keyboard env ts pos kbVKey mc kbFlags w =
     (if kbVKey = VK_ESCAPE \<and> \<not> up then
        (say (EscShutdown ts) w1)\<lparr>g_running := False, quit_posted := True\<rparr>
      else if \<not> fst p then
        say (KeyLine ts kbVKey mc up
               (if IsSpecialKey kbVKey w4 then Some (GetKeyName kbVKey) else None) pos) w4
      else w4)"
    by (simp only: ProcessRawInput_keyboard_def Let_def case_prod_beta
        up_def w1_def w2_def p_def w4_def)
  then show ?thesis using k1 k4 by (simp add: say_keeps)
qed

lemma main_startup_vectors:
  "s_specialKeys (main_startup env w) = [VK_CONTROL, VK_SHIFT, VK_MENU] \<and>
   length (s_specialKeyStates (main_startup env w)) = 3"
  by (simp add: main_startup_def SuggestionOverlay_Initialize_def InputInjector_Initialize_def
      SpecialKeyHandler_Initialize_def InitializeEventLog_def ClearLogFile_def
      EventLogger_Initialize_def say_def Let_def resize_states_def)

lemma reachable_vectors:
  "reachable w \<Longrightarrow> vectors_aligned w \<and> distinct (s_specialKeys w)"
proof (induction rule: reachable.induct)
  case (reachable_start env)
  show ?case by (simp add: main_startup_vectors vectors_aligned_def)
next
  case (reachable_key w env ts pos kbVKey mc kbFlags)
  then have a: "vectors_aligned w" and d: "distinct (s_specialKeys w)" by simp_all
  from ProcessRawInput_keyboard_vectors [OF a, of env ts pos kbVKey mc kbFlags] a d
  show ?case by (simp add: vectors_aligned_def)
next
  case (reachable_add w v)
  then show ?case by (simp add: AddSpecialKey_aligned AddSpecialKey_distinct)
qed

subsection \<open>The overlay in the states the program reaches\<close>

text \<open>
  A window that is shown belongs to an initialised overlay in every reachable state; there
  \<open>suggestion_displayed\<close> says no more than that the window is shown.
\<close>

lemma overlay_kept_refl: "overlay_kept w w"
  by (simp add: overlay_kept_def)

lemma overlay_kept_trans: "overlay_kept w w' \<Longrightarrow> overlay_kept w' w'' \<Longrightarrow> overlay_kept w w''"
  by (auto simp add: overlay_kept_def)

lemma overlay_kept_same:
  "SuggestionOverlay_initialized w' = SuggestionOverlay_initialized w \<Longrightarrow>
   s_overlayWindow w' = s_overlayWindow w \<Longrightarrow> overlay_visible w' = overlay_visible w \<Longrightarrow>
   overlay_kept w w'"
  by (simp add: overlay_kept_def)

lemma overlay_kept_effects: "effects_only w w' \<Longrightarrow> overlay_kept w w'"
  by (rule overlay_kept_same) (simp_all add: effects_only_fields)

lemma overlay_kept_say: "overlay_kept w (say m w)"
  by (rule overlay_kept_effects) (rule effects_only_say)

lemma overlay_kept_StoreEvent: "overlay_kept w (StoreEvent env ts pos kb w)"
  by (rule overlay_kept_same)
     (simp_all add: StoreEvent_def LogKeyboardEvent_def UpdateModifierStates_def
        WriteLogEntry_def say_def Let_def)

lemma overlay_kept_HideSuggestion: "overlay_kept w (HideSuggestion w)"
  by (simp add: overlay_kept_def HideSuggestion_def say_def)

lemma overlay_kept_ShowSuggestion: "overlay_kept w (ShowSuggestion t w)"
  by (simp add: overlay_kept_def ShowSuggestion_def say_def)

lemma overlay_kept_OnRightCtrlPressed: "overlay_kept w (OnRightCtrlPressed env pt rt pp rp w)"
proof (cases "s_hasPendingSuggestion w \<and> s_pendingSuggestion w \<noteq> []")
  case False
  show ?thesis by (simp add: OnRightCtrlPressed_none [OF False] overlay_kept_def)
next
  case True
  define w1 where "w1 = say (AcceptingSuggestion (s_pendingSuggestion w)) (say RightCtrlBanner w)"
  define p where "p = SendTextString env (s_pendingSuggestion w) w1"
  define w4 where "w4 = (if fst p then say (InjectedText (length (s_pendingSuggestion (snd p)))) (snd p)
                else say ErrFailedToInject (snd p))"
  define w4' where "w4' = w4\<lparr>s_pendingSuggestion := [], s_hasPendingSuggestion := False\<rparr>"
  define w5 where "w5 = HideSuggestion w4'"
  have r: "OnRightCtrlPressed env pt rt pp rp w = say RightCtrlCompleted w5"
    using True by (simp add: OnRightCtrlPressed_some Let_def p_def w1_def w4_def w4'_def w5_def)
  have "overlay_kept w (say RightCtrlBanner w)" by (rule overlay_kept_say)
  moreover have "overlay_kept (say RightCtrlBanner w) w1" by (simp add: w1_def overlay_kept_say)
  moreover have "overlay_kept w1 (snd p)"
    by (simp add: p_def overlay_kept_effects effects_only_SendTextString)
  moreover have "overlay_kept (snd p) w4" by (simp add: w4_def overlay_kept_say)
  moreover have "overlay_kept w4 w4'" by (rule overlay_kept_same) (simp_all add: w4'_def)
  moreover have "overlay_kept w4' w5" by (simp add: w5_def overlay_kept_HideSuggestion)
  moreover have "overlay_kept w5 (say RightCtrlCompleted w5)" by (rule overlay_kept_say)
  ultimately show ?thesis unfolding r using overlay_kept_trans by metis
qed

lemma overlay_kept_OnLeftCtrlPressed: "overlay_kept w (OnLeftCtrlPressed env pt rt pp rp w)"
  by (simp add: OnLeftCtrlPressed_def Let_def overlay_kept_def say_def ShowSuggestion_def
      split: python_output.split)

lemma overlay_kept_OnSpecialKeyPressed: "overlay_kept w (OnSpecialKeyPressed v pt rt pp rp w)"
  by (simp add: OnSpecialKeyPressed_def OnShiftPressed_def OnAltPressed_def overlay_kept_say)

lemma overlay_kept_ProcessSpecialKeyEvent:
  "overlay_kept w (snd (ProcessSpecialKeyEvent env v fl up ts pos w))"
proof (cases "GetSpecialKeyIndex v w < 0")
  case True
  then show ?thesis by (simp add: ProcessSpecialKeyEvent_regular overlay_kept_refl)
next
  case special: False
  then have i: "GetSpecialKeyIndex v w = int (nat (GetSpecialKeyIndex v w))" by simp
  show ?thesis
  proof (cases up)
    case False
    then have "up = False" by simp
    show ?thesis unfolding \<open>up = False\<close> ProcessSpecialKeyEvent_press [OF special]
      by (simp add: overlay_kept_def)
  next
    case True
    then have "up = True" by simp
    define k where "k = s_specialKeyStates w ! nat (GetSpecialKeyIndex v w)"
    define w1 where "w1 =
            (if isPressed k \<and> \<not> hadInterveningKeys k then
               (if v = VK_CONTROL then
                  (if fl AND RI_KEY_E0 \<noteq> 0 then
                     OnRightCtrlPressed env (pressTimestamp k) ts
                       (pressPosition k) pos (say RightCtrlPressedAlone w)
                   else
                     OnLeftCtrlPressed env (pressTimestamp k) ts
                       (pressPosition k) pos (say LeftCtrlTrigger w))
                else
                  OnSpecialKeyPressed v (pressTimestamp k) ts
                    (pressPosition k) pos (say (PressedAlone (GetKeyName v)) w))
             else if isPressed k \<and> hadInterveningKeys k then
               (if v = VK_CONTROL then
                  say (PartOfCombination
                         (if fl AND RI_KEY_E0 \<noteq> 0 then ''Right Ctrl'' else ''Left Ctrl'')) w
                else say (PartOfCombination (GetKeyName v)) w)
             else w)"
    have a: "overlay_kept w w1"
      unfolding w1_def
      by (auto intro: overlay_kept_trans [OF overlay_kept_say overlay_kept_OnRightCtrlPressed]
          overlay_kept_trans [OF overlay_kept_say overlay_kept_OnLeftCtrlPressed]
          overlay_kept_trans [OF overlay_kept_say overlay_kept_OnSpecialKeyPressed]
          overlay_kept_say overlay_kept_refl)
    have "snd (ProcessSpecialKeyEvent env v fl True ts pos w) =
        w1\<lparr>s_specialKeyStates := (s_specialKeyStates w1)
             [nat (GetSpecialKeyIndex v w) := (s_specialKeyStates w1 ! nat (GetSpecialKeyIndex v w))
                \<lparr>isPressed := False, hadInterveningKeys := False\<rparr>]\<rparr>"
      by (simp only: ProcessSpecialKeyEvent_release [OF i] Let_def snd_conv w1_def k_def)
    then have b: "overlay_kept w1 (snd (ProcessSpecialKeyEvent env v fl True ts pos w))"
      by (simp add: overlay_kept_def)
    show ?thesis unfolding \<open>up = True\<close> using overlay_kept_trans [OF a b] .
  qed
qed

lemma overlay_kept_Notify_at: "overlay_kept w (NotifyRegularKeyPressed_at v i w)"
  by (simp add: overlay_kept_def NotifyRegularKeyPressed_at_def say_def)

lemma overlay_kept_fold_Notify: "overlay_kept w (fold (NotifyRegularKeyPressed_at v) is w)"
proof (induction "is" arbitrary: w)
  case Nil
  show ?case by (simp add: overlay_kept_refl)
next
  case (Cons i "is")
  show ?case using overlay_kept_trans [OF overlay_kept_Notify_at Cons.IH] by simp
qed

lemma overlay_kept_ProcessRawInput_keyboard:
  "overlay_kept w (ProcessRawInput_keyboard env ts pos kbVKey mc kbFlags w)"
proof -
  define up where "up = (kbFlags AND RI_KEY_BREAK \<noteq> 0)"
  define w1 where "w1 = StoreEvent env ts pos
     \<lparr>vKey = kbVKey, scanCode = mc, flags = kbFlags, isKeyUp = up\<rparr> w"
  define w2 where "w2 = (if \<not> up then
                 (if \<not> (kbVKey = VK_CONTROL \<and> kbFlags AND RI_KEY_E0 = 0) then HideSuggestion w1 else w1)
               else w1)"
  define p where "p = ProcessSpecialKeyEvent env kbVKey kbFlags up ts pos w2"
  define w4 where "w4 = (if \<not> fst p \<and> \<not> up then NotifyRegularKeyPressed kbVKey (snd p) else snd p)"
  define w5 where "w5 = (if kbVKey = VK_ESCAPE \<and> \<not> up then
        (say (EscShutdown ts) w1)\<lparr>g_running := False, quit_posted := True\<rparr>
      else if \<not> fst p then
        say (KeyLine ts kbVKey mc up
               (if IsSpecialKey kbVKey w4 then Some (GetKeyName kbVKey) else None) pos) w4
      else w4)"
  have r: "ProcessRawInput_keyboard env ts pos kbVKey mc kbFlags w = w5"
    by (simp only: ProcessRawInput_keyboard_def Let_def case_prod_beta
        up_def w1_def w2_def p_def w4_def w5_def)
  have k1: "overlay_kept w w1" by (simp add: w1_def overlay_kept_StoreEvent)
  have k2: "overlay_kept w1 w2" by (simp add: w2_def overlay_kept_HideSuggestion overlay_kept_refl)
  have k3: "overlay_kept w2 (snd p)" by (simp add: p_def overlay_kept_ProcessSpecialKeyEvent)
  have k4: "overlay_kept (snd p) w4"
    by (simp add: w4_def NotifyRegularKeyPressed_def overlay_kept_fold_Notify overlay_kept_refl)
  have e: "overlay_kept w1 ((say (EscShutdown ts) w1)\<lparr>g_running := False, quit_posted := True\<rparr>)"
    by (simp add: overlay_kept_def say_def)
  have k5: "overlay_kept w w4" using k1 k2 k3 k4 overlay_kept_trans by metis
  have "overlay_kept w w5"
    unfolding w5_def
    using overlay_kept_trans [OF k1 e] k5 overlay_kept_trans [OF k5 overlay_kept_say]
    by simp
  then show ?thesis by (simp only: r)
qed

lemma overlay_kept_AddSpecialKey: "overlay_kept w (AddSpecialKey v w)"
  by (simp add: AddSpecialKey_def overlay_kept_def)

lemma reachable_overlay:
  "reachable w \<Longrightarrow>
   SuggestionOverlay_initialized w = s_overlayWindow w \<and>
   (overlay_visible w \<longrightarrow> SuggestionOverlay_initialized w)"
proof (induction rule: reachable.induct)
  case (reachable_start env)
  show ?case
    by (simp add: main_startup_def SuggestionOverlay_Initialize_def InputInjector_Initialize_def
      SpecialKeyHandler_Initialize_def InitializeEventLog_def ClearLogFile_def
      EventLogger_Initialize_def say_def Let_def static_init_def)
next
  case (reachable_key w env ts pos kbVKey mc kbFlags)
  then show ?case
    using overlay_kept_ProcessRawInput_keyboard [of w env ts pos kbVKey mc kbFlags]
    by (auto simp add: overlay_kept_def)
next
  case (reachable_add w v)
  then show ?case using overlay_kept_AddSpecialKey [of w v] by (auto simp add: overlay_kept_def)
qed

lemma reachable_displayed: "reachable w \<Longrightarrow> suggestion_displayed w = overlay_visible w"
  using reachable_overlay [of w] by (auto simp add: suggestion_displayed_def)

section \<open>The release of a monitored key\<close>

lemma ProcessSpecialKeyEvent_release_reset:
  assumes "GetSpecialKeyIndex v w = int i"
  shows "snd (ProcessSpecialKeyEvent env v fl True ts pos w) =
     reset_key i
       (if held w i \<and> \<not> intervened w i then
          (if v = VK_CONTROL then
             (if fl AND RI_KEY_E0 \<noteq> 0 then
                OnRightCtrlPressed env (pressTimestamp (s_specialKeyStates w ! i)) ts
                  (pressPosition (s_specialKeyStates w ! i)) pos (say RightCtrlPressedAlone w)
              else
                OnLeftCtrlPressed env (pressTimestamp (s_specialKeyStates w ! i)) ts
                  (pressPosition (s_specialKeyStates w ! i)) pos (say LeftCtrlTrigger w))
           else
             OnSpecialKeyPressed v (pressTimestamp (s_specialKeyStates w ! i)) ts
               (pressPosition (s_specialKeyStates w ! i)) pos (say (PressedAlone (GetKeyName v)) w))
        else if held w i \<and> intervened w i then
          say (PartOfCombination
                 (if v = VK_CONTROL
                  then (if fl AND RI_KEY_E0 \<noteq> 0 then ''Right Ctrl'' else ''Left Ctrl'')
                  else GetKeyName v)) w
        else w)"
  by (simp add: ProcessSpecialKeyEvent_release [OF assms] Let_def reset_key_def
      held_def intervened_def)

lemma release_resets_flags:
  assumes "GetSpecialKeyIndex v w = int i" and "vectors_aligned w"
  shows "\<not> held (snd (ProcessSpecialKeyEvent env v fl True ts pos w)) i \<and>
         \<not> intervened (snd (ProcessSpecialKeyEvent env v fl True ts pos w)) i"
proof -
  define w' where "w' = snd (ProcessSpecialKeyEvent env v fl True ts pos w)"
  from GetSpecialKeyIndex_found [OF assms(1)] assms(2)
  have "i < length (s_specialKeyStates w)" by (simp add: vectors_aligned_def)
  with ProcessSpecialKeyEvent_vectors [of env v fl True ts pos w]
  have l: "i < length (s_specialKeyStates w')" by (simp add: w'_def)
  obtain u where u: "w' = reset_key i u"
    using ProcessSpecialKeyEvent_release_reset [OF assms(1), of env fl ts pos]
    by (simp add: w'_def)
  from l have "i < length (s_specialKeyStates u)" by (simp add: u reset_key_def)
  then have "\<not> held w' i \<and> \<not> intervened w' i"
    by (simp add: u reset_key_def held_def intervened_def)
  then show ?thesis by (simp add: w'_def)
qed

lemma release_not_held_console:
  assumes "GetSpecialKeyIndex v w = int i" and "\<not> held w i"
  shows "console (snd (ProcessSpecialKeyEvent env v fl True ts pos w)) = console w"
  using assms(2) by (simp add: ProcessSpecialKeyEvent_release_reset [OF assms(1)] reset_key_def)

text \<open>
  Claim C4, amended: let the key-up of a monitored key (at index \<open>i\<close>) be processed, the
  two vectors having the same length. If the key is recorded as pressed, exactly one of
  the two outcomes occurs, and \<open>hadInterveningKeys\<close> alone decides which. When it is false
  the gesture fires: the console announces it and the state is the one the handler of
  the key leaves (\<open>OnRightCtrlPressed\<close> or \<open>OnLeftCtrlPressed\<close> for Ctrl, by the extended
  flag, \<open>OnSpecialKeyPressed\<close> for another key), called with the time and position of
  the press. When it is true the gesture is suppressed: the console reports the
  combination and no handler runs, the state being otherwise unchanged. If the key is
  not recorded as pressed, neither outcome occurs and nothing is written. In all three
  cases the two flags of the key are false afterwards.
\<close>

theorem release_outcome_by_flag:
  fixes w :: world and i :: nat and env :: os_env and v fl :: WORD
    and ts :: uint64_t and pos :: POINT
  defines "k \<equiv> s_specialKeyStates w ! i"
    and "w' \<equiv> snd (ProcessSpecialKeyEvent env v fl True ts pos w)"
  assumes "GetSpecialKeyIndex v w = int i" and "vectors_aligned w"
  shows
    "(held w i \<and> \<not> intervened w i \<longrightarrow>
        gesture_fired w w' \<and> \<not> gesture_suppressed w w' \<and>
        w' = reset_key i
               (if v = VK_CONTROL then
                  (if fl AND RI_KEY_E0 \<noteq> 0 then
                     OnRightCtrlPressed env (pressTimestamp k) ts (pressPosition k) pos
                       (say RightCtrlPressedAlone w)
                   else
                     OnLeftCtrlPressed env (pressTimestamp k) ts (pressPosition k) pos
                       (say LeftCtrlTrigger w))
                else
                  OnSpecialKeyPressed v (pressTimestamp k) ts (pressPosition k) pos
                    (say (PressedAlone (GetKeyName v)) w))) \<and>
     (held w i \<and> intervened w i \<longrightarrow>
        gesture_suppressed w w' \<and> \<not> gesture_fired w w' \<and>
        w' = reset_key i
               (say (PartOfCombination
                       (if v = VK_CONTROL
                        then (if fl AND RI_KEY_E0 \<noteq> 0 then ''Right Ctrl'' else ''Left Ctrl'')
                        else GetKeyName v)) w)) \<and>
     (\<not> held w i \<longrightarrow>
        \<not> gesture_fired w w' \<and> \<not> gesture_suppressed w w' \<and> w' = reset_key i w) \<and>
     \<not> held w' i \<and> \<not> intervened w' i"
proof -
  note r = ProcessSpecialKeyEvent_release_reset [OF assms(3), of env fl ts pos, folded w'_def k_def]
  have fired: "gesture_fired w w' \<and> \<not> gesture_suppressed w w'"
    if "held w i" "\<not> intervened w i"
  proof -
    from release_fired_console [OF assms(3) that, of env fl ts pos]
    obtain m out where
      "console w' = console w @ m # out"
      "gesture_fired_msg m" "\<not> gesture_suppressed_msg m" "\<not> list_ex gesture_suppressed_msg out"
      unfolding w'_def by blast
    then show ?thesis
      by (simp add: gesture_fired_def gesture_suppressed_def new_console_def)
  qed
  have suppressed: "gesture_suppressed w w' \<and> \<not> gesture_fired w w'"
    if "held w i" "intervened w i"
  proof -
    from release_suppressed_console [OF assms(3) that, of env fl ts pos]
    obtain n where "console w' = console w @ [PartOfCombination n]"
      unfolding w'_def by blast
    then show ?thesis
      by (simp add: gesture_fired_def gesture_suppressed_def new_console_def)
  qed
  have neither: "\<not> gesture_fired w w' \<and> \<not> gesture_suppressed w w'" if "\<not> held w i"
    using release_not_held_console [OF assms(3) that, of env fl ts pos]
    by (simp add: w'_def gesture_fired_def gesture_suppressed_def new_console_def)
  have reset: "\<not> held w' i \<and> \<not> intervened w' i"
    unfolding w'_def by (rule release_resets_flags [OF assms(3,4)])
  show ?thesis
  proof (intro conjI impI)
    assume a: "held w i \<and> \<not> intervened w i"
    then show "gesture_fired w w'" "\<not> gesture_suppressed w w'" using fired by simp_all
    from a show "w' = reset_key i
               (if v = VK_CONTROL then
                  (if fl AND RI_KEY_E0 \<noteq> 0 then
                     OnRightCtrlPressed env (pressTimestamp k) ts (pressPosition k) pos
                       (say RightCtrlPressedAlone w)
                   else
                     OnLeftCtrlPressed env (pressTimestamp k) ts (pressPosition k) pos
                       (say LeftCtrlTrigger w))
                else
                  OnSpecialKeyPressed v (pressTimestamp k) ts (pressPosition k) pos
                    (say (PressedAlone (GetKeyName v)) w))"
      by (simp add: r)
  next
    assume a: "held w i \<and> intervened w i"
    then show "gesture_suppressed w w'" "\<not> gesture_fired w w'" using suppressed by simp_all
    from a show "w' = reset_key i
               (say (PartOfCombination
                       (if v = VK_CONTROL
                        then (if fl AND RI_KEY_E0 \<noteq> 0 then ''Right Ctrl'' else ''Left Ctrl'')
                        else GetKeyName v)) w)"
      by (simp add: r)
  next
    assume a: "\<not> held w i"
    then show "\<not> gesture_fired w w'" "\<not> gesture_suppressed w w'" using neither by simp_all
    from a show "w' = reset_key i w" by (simp add: r)
  next
    show "\<not> held w' i" "\<not> intervened w' i" using reset by simp_all
  qed
qed

theorem release_outcome_by_flag_witness:
  "GetSpecialKeyIndex VK_CONTROL ctrl_down = int 0 \<and> vectors_aligned ctrl_down \<and>
   held ctrl_down 0 \<and> \<not> intervened ctrl_down 0 \<and>
   gesture_fired ctrl_down
     (snd (ProcessSpecialKeyEvent env_suggest VK_CONTROL RI_KEY_BREAK True 50 (0, 0) ctrl_down)) \<and>
   \<not> gesture_suppressed ctrl_down
     (snd (ProcessSpecialKeyEvent env_suggest VK_CONTROL RI_KEY_BREAK True 50 (0, 0) ctrl_down)) \<and>
   snd (ProcessSpecialKeyEvent env_suggest VK_CONTROL RI_KEY_BREAK True 50 (0, 0) ctrl_down)
     = reset_key 0
         (OnLeftCtrlPressed env_suggest (pressTimestamp (s_specialKeyStates ctrl_down ! 0)) 50
            (pressPosition (s_specialKeyStates ctrl_down ! 0)) (0, 0)
            (say LeftCtrlTrigger ctrl_down)) \<and>
   s_pendingSuggestion
     (snd (ProcessSpecialKeyEvent env_suggest VK_CONTROL RI_KEY_BREAK True 50 (0, 0) ctrl_down))
     = ''Hi'' \<and>
   \<not> held (snd (ProcessSpecialKeyEvent env_suggest VK_CONTROL RI_KEY_BREAK True 50 (0, 0) ctrl_down)) 0 \<and>
   GetSpecialKeyIndex VK_CONTROL ctrl_shift_a_down = int 0 \<and> vectors_aligned ctrl_shift_a_down \<and>
   held ctrl_shift_a_down 0 \<and> intervened ctrl_shift_a_down 0 \<and>
   gesture_suppressed ctrl_shift_a_down
     (snd (ProcessSpecialKeyEvent env_suggest VK_CONTROL RI_KEY_BREAK True 50 (0, 0) ctrl_shift_a_down)) \<and>
   \<not> gesture_fired ctrl_shift_a_down
     (snd (ProcessSpecialKeyEvent env_suggest VK_CONTROL RI_KEY_BREAK True 50 (0, 0) ctrl_shift_a_down)) \<and>
   snd (ProcessSpecialKeyEvent env_suggest VK_CONTROL RI_KEY_BREAK True 50 (0, 0) ctrl_shift_a_down)
     = reset_key 0 (say (PartOfCombination ''Left Ctrl'') ctrl_shift_a_down) \<and>
   \<not> intervened
     (snd (ProcessSpecialKeyEvent env_suggest VK_CONTROL RI_KEY_BREAK True 50 (0, 0) ctrl_shift_a_down)) 0"
proof -
  have h1: "GetSpecialKeyIndex VK_CONTROL ctrl_down = int 0" by code_simp
  have h2: "vectors_aligned ctrl_down" by code_simp
  have h3: "held ctrl_down 0" "\<not> intervened ctrl_down 0" by code_simp+
  have g1: "GetSpecialKeyIndex VK_CONTROL ctrl_shift_a_down = int 0" by code_simp
  have g2: "vectors_aligned ctrl_shift_a_down" by code_simp
  have g3: "held ctrl_shift_a_down 0" "intervened ctrl_shift_a_down 0" by code_simp+
  have e: "(RI_KEY_BREAK :: WORD) AND RI_KEY_E0 = 0" by simp
  have p: "s_pendingSuggestion
     (snd (ProcessSpecialKeyEvent env_suggest VK_CONTROL RI_KEY_BREAK True 50 (0, 0) ctrl_down))
     = ''Hi''" by code_simp
  note t1 = release_outcome_by_flag [OF h1 h2, of env_suggest RI_KEY_BREAK 50 "(0, 0)"]
  from t1 h3 have a1: "gesture_fired ctrl_down
     (snd (ProcessSpecialKeyEvent env_suggest VK_CONTROL RI_KEY_BREAK True 50 (0, 0) ctrl_down))"
    by blast
  from t1 h3 have a2: "\<not> gesture_suppressed ctrl_down
     (snd (ProcessSpecialKeyEvent env_suggest VK_CONTROL RI_KEY_BREAK True 50 (0, 0) ctrl_down))"
    by blast
  from t1 h3 have "snd (ProcessSpecialKeyEvent env_suggest VK_CONTROL RI_KEY_BREAK True 50 (0, 0) ctrl_down)
     = reset_key 0
               (if VK_CONTROL = VK_CONTROL then
                  (if RI_KEY_BREAK AND RI_KEY_E0 \<noteq> (0 :: WORD) then
                     OnRightCtrlPressed env_suggest (pressTimestamp (s_specialKeyStates ctrl_down ! 0)) 50
                       (pressPosition (s_specialKeyStates ctrl_down ! 0)) (0, 0)
                       (say RightCtrlPressedAlone ctrl_down)
                   else
                     OnLeftCtrlPressed env_suggest (pressTimestamp (s_specialKeyStates ctrl_down ! 0)) 50
                       (pressPosition (s_specialKeyStates ctrl_down ! 0)) (0, 0)
                       (say LeftCtrlTrigger ctrl_down))
                else
                  OnSpecialKeyPressed VK_CONTROL (pressTimestamp (s_specialKeyStates ctrl_down ! 0)) 50
                    (pressPosition (s_specialKeyStates ctrl_down ! 0)) (0, 0)
                    (say (PressedAlone (GetKeyName VK_CONTROL)) ctrl_down))"
    by blast
  then have a3: "snd (ProcessSpecialKeyEvent env_suggest VK_CONTROL RI_KEY_BREAK True 50 (0, 0) ctrl_down)
     = reset_key 0
         (OnLeftCtrlPressed env_suggest (pressTimestamp (s_specialKeyStates ctrl_down ! 0)) 50
            (pressPosition (s_specialKeyStates ctrl_down ! 0)) (0, 0)
            (say LeftCtrlTrigger ctrl_down))"
    by (simp only: e refl if_True if_False simp_thms)
  from t1 have a4:
    "\<not> held (snd (ProcessSpecialKeyEvent env_suggest VK_CONTROL RI_KEY_BREAK True 50 (0, 0) ctrl_down)) 0"
    by blast
  note a = a1 a2 a3 a4
  note t2 = release_outcome_by_flag [OF g1 g2, of env_suggest RI_KEY_BREAK 50 "(0, 0)"]
  from t2 g3 have b1: "gesture_suppressed ctrl_shift_a_down
     (snd (ProcessSpecialKeyEvent env_suggest VK_CONTROL RI_KEY_BREAK True 50 (0, 0) ctrl_shift_a_down))"
    by blast
  from t2 g3 have b2: "\<not> gesture_fired ctrl_shift_a_down
     (snd (ProcessSpecialKeyEvent env_suggest VK_CONTROL RI_KEY_BREAK True 50 (0, 0) ctrl_shift_a_down))"
    by blast
  from t2 g3 have "snd (ProcessSpecialKeyEvent env_suggest VK_CONTROL RI_KEY_BREAK True 50 (0, 0) ctrl_shift_a_down)
     = reset_key 0
               (say (PartOfCombination
                       (if VK_CONTROL = VK_CONTROL
                        then (if RI_KEY_BREAK AND RI_KEY_E0 \<noteq> (0 :: WORD) then ''Right Ctrl'' else ''Left Ctrl'')
                        else GetKeyName VK_CONTROL)) ctrl_shift_a_down)"
    by blast
  then have b3: "snd (ProcessSpecialKeyEvent env_suggest VK_CONTROL RI_KEY_BREAK True 50 (0, 0) ctrl_shift_a_down)
     = reset_key 0 (say (PartOfCombination ''Left Ctrl'') ctrl_shift_a_down)"
    by (simp only: e refl if_True if_False simp_thms)
  from t2 have b4: "\<not> intervened
     (snd (ProcessSpecialKeyEvent env_suggest VK_CONTROL RI_KEY_BREAK True 50 (0, 0) ctrl_shift_a_down)) 0"
    by blast
  note b = b1 b2 b3 b4
  show ?thesis using h1 h2 h3 g1 g2 g3 p a b by (simp only: simp_thms)
qed

text \<open>
  Claim C4, as stated for every key-up of a monitored key, fails: both branches of the
  release are guarded by \<open>keyState.isPressed\<close>. After left shift down, right shift down
  and left shift up (which fires), the key-up of the right shift is handled as a special
  key and is neither fired nor suppressed.
\<close>

theorem release_without_press_neither_fires_nor_suppresses:
  "fst (ProcessSpecialKeyEvent env_suggest VK_SHIFT RI_KEY_BREAK True 40 (0, 0) one_shift_still_down) \<and>
   \<not> gesture_fired one_shift_still_down
       (snd (ProcessSpecialKeyEvent env_suggest VK_SHIFT RI_KEY_BREAK True 40 (0, 0) one_shift_still_down)) \<and>
   \<not> gesture_suppressed one_shift_still_down
       (snd (ProcessSpecialKeyEvent env_suggest VK_SHIFT RI_KEY_BREAK True 40 (0, 0) one_shift_still_down))"
  by code_simp

end
